theory Spec2Isabelle
  imports Complex_Main "HOL-Library.Multiset"
begin

section \<open>Text: Python \<open>str\<close> as a list of code points\<close>

text \<open>
  A Python \<open>str\<close> is a sequence of Unicode code points, so a text is a list of
  natural numbers. \<open>u\<close> reads an ASCII literal as such a text.
\<close>

type_synonym codepoint = nat
type_synonym str = "codepoint list"

definition u :: "string \<Rightarrow> str" where
  "u s = map of_char s"

definition is_ascii_lower :: "codepoint \<Rightarrow> bool" where
  "is_ascii_lower c \<longleftrightarrow> 97 \<le> c \<and> c \<le> 122"

definition is_ascii_upper :: "codepoint \<Rightarrow> bool" where
  "is_ascii_upper c \<longleftrightarrow> 65 \<le> c \<and> c \<le> 90"

text \<open>
  \<open>str.isspace\<close>, \<open>str.split\<close>, \<open>str.strip\<close> and the class \<open>\s\<close> of a \<open>str\<close>
  pattern all use the same table of white space: TAB..CR, FS..US, SPACE, U+0085, U+00A0,
  U+1680, U+2000..U+200A, U+2028, U+2029, U+202F, U+205F, U+3000.
\<close>

definition isspace :: "codepoint \<Rightarrow> bool" where
  "isspace c \<longleftrightarrow>
     (9 \<le> c \<and> c \<le> 13) \<or> (28 \<le> c \<and> c \<le> 32) \<or> c = 133 \<or> c = 160 \<or> c = 5760 \<or>
     (8192 \<le> c \<and> c \<le> 8202) \<or> c = 8232 \<or> c = 8233 \<or> c = 8239 \<or> c = 8287 \<or> c = 12288"

text \<open>
  \<open>text.lower()\<close>. On ASCII it maps \<open>A..Z\<close> to \<open>a..z\<close> and nothing else. The
  lowercase mapping of the other code points is a table of the Python runtime: it is the
  parameter \<open>ul\<close>, which sees the code point with the text before and after it (the
  mapping of capital sigma depends on its neighbours) and may return several code points.
\<close>

type_synonym ulower = "str \<Rightarrow> codepoint \<Rightarrow> str \<Rightarrow> str"

fun lower_from :: "ulower \<Rightarrow> str \<Rightarrow> str \<Rightarrow> str" where
  "lower_from ul pre [] = []"
| "lower_from ul pre (c # cs) =
     (if c < 128 then [if is_ascii_upper c then c + 32 else c] else ul pre c cs)
       @ lower_from ul (pre @ [c]) cs"

definition str_lower :: "ulower \<Rightarrow> str \<Rightarrow> str" where
  "str_lower ul s = lower_from ul [] s"

text \<open>\<open>re.sub(r'[^a-zA-Z\s]', '', t)\<close>: every code point outside the class is deleted.\<close>

definition re_sub_non_letter_space :: "str \<Rightarrow> str" where
  "re_sub_non_letter_space t =
     filter (\<lambda>c. is_ascii_lower c \<or> is_ascii_upper c \<or> isspace c) t"

text \<open>
  \<open>t.split()\<close> with no separator: the maximal runs of non-space code points, in order;
  \<open>cur\<close> is the run being read.
\<close>

fun split_from :: "str \<Rightarrow> str \<Rightarrow> str list" where
  "split_from cur [] = (if cur = [] then [] else [cur])"
| "split_from cur (c # cs) =
     (if isspace c then (if cur = [] then split_from [] cs else cur # split_from [] cs)
      else split_from (cur @ [c]) cs)"

definition str_split :: "str \<Rightarrow> str list" where
  "str_split s = split_from [] s"

text \<open>\<open>t.strip()\<close>: white space removed at both ends.\<close>

definition str_strip :: "str \<Rightarrow> str" where
  "str_strip s = rev (dropWhile isspace (rev (dropWhile isspace s)))"

text \<open>\<open>sep.join(ts)\<close>.\<close>

fun str_join :: "str \<Rightarrow> str list \<Rightarrow> str" where
  "str_join sep [] = []"
| "str_join sep [t] = t"
| "str_join sep (t # t' # ts) = t @ sep @ str_join sep (t' # ts)"

section \<open>The normalizer \<open>clean_text\<close>\<close>

text \<open>
  \<open>stopwords.words('english')\<close> is a word list of the NLTK corpus, not of this
  repository: it is the parameter \<open>stopwords_english\<close>.
\<close>

definition clean_text :: "str list \<Rightarrow> ulower \<Rightarrow> str \<Rightarrow> str list" where
  "clean_text stopwords_english ul text =
     (let text' = re_sub_non_letter_space (str_lower ul text);
          words = str_split text'
      in filter (\<lambda>word. word \<notin> set stopwords_english) words)"

text \<open>
  The English stop word list as NLTK ships it (the entries with an apostrophe can never
  equal a token, which is purely alphabetic), and a few rows of the Unicode lowercase
  table (KELVIN SIGN, LATIN CAPITAL LETTER I WITH DOT ABOVE, LATIN CAPITAL LETTER A WITH
  GRAVE). Both serve to run the functions on concrete texts.
\<close>

definition nltk_stopwords_english :: "str list" where
  "nltk_stopwords_english = map u
     [''i'', ''me'', ''my'', ''myself'', ''we'', ''our'', ''ours'', ''ourselves'', ''you'',
      ''you're'', ''you've'', ''you'll'', ''you'd'', ''your'', ''yours'', ''yourself'',
      ''yourselves'', ''he'', ''him'', ''his'', ''himself'', ''she'', ''she's'', ''her'',
      ''hers'', ''herself'', ''it'', ''it's'', ''its'', ''itself'', ''they'', ''them'',
      ''their'', ''theirs'', ''themselves'', ''what'', ''which'', ''who'', ''whom'',
      ''this'', ''that'', ''that'll'', ''these'', ''those'', ''am'', ''is'', ''are'',
      ''was'', ''were'', ''be'', ''been'', ''being'', ''have'', ''has'', ''had'',
      ''having'', ''do'', ''does'', ''did'', ''doing'', ''a'', ''an'', ''the'', ''and'',
      ''but'', ''if'', ''or'', ''because'', ''as'', ''until'', ''while'', ''of'', ''at'',
      ''by'', ''for'', ''with'', ''about'', ''against'', ''between'', ''into'',
      ''through'', ''during'', ''before'', ''after'', ''above'', ''below'', ''to'',
      ''from'', ''up'', ''down'', ''in'', ''out'', ''on'', ''off'', ''over'', ''under'',
      ''again'', ''further'', ''then'', ''once'', ''here'', ''there'', ''when'', ''where'',
      ''why'', ''how'', ''all'', ''any'', ''both'', ''each'', ''few'', ''more'', ''most'',
      ''other'', ''some'', ''such'', ''no'', ''nor'', ''not'', ''only'', ''own'', ''same'',
      ''so'', ''than'', ''too'', ''very'', ''s'', ''t'', ''can'', ''will'', ''just'',
      ''don'', ''don't'', ''should'', ''should've'', ''now'', ''d'', ''ll'', ''m'', ''o'',
      ''re'', ''ve'', ''y'', ''ain'', ''aren'', ''aren't'', ''couldn'', ''couldn't'',
      ''didn'', ''didn't'', ''doesn'', ''doesn't'', ''hadn'', ''hadn't'', ''hasn'',
      ''hasn't'', ''haven'', ''haven't'', ''isn'', ''isn't'', ''ma'', ''mightn'',
      ''mightn't'', ''mustn'', ''mustn't'', ''needn'', ''needn't'', ''shan'', ''shan't'',
      ''shouldn'', ''shouldn't'', ''wasn'', ''wasn't'', ''weren'', ''weren't'', ''won'',
      ''won't'', ''wouldn'', ''wouldn't'']"

definition ulower_rows :: ulower where
  "ulower_rows pre c post =
     (if c = 8490 then [107] else if c = 304 then [105, 775] else if c = 192 then [224]
      else [c])"

section \<open>IEEE 754 double precision, as NumPy computes the percentage column\<close>

text \<open>
  The column \<open>% of Text\<close> is computed in \<open>float64\<close>. Only non-negative values occur,
  so a finite double is a mantissa \<open>m\<close> and an exponent \<open>e\<close> standing for \<open>m * 2 ^ e\<close>,
  normalised to \<open>2 ^ 52 \<le> m < 2 ^ 53\<close> unless it is zero. Counts are \<open>int64\<close>, so every
  quotient lies far inside the normal range: overflow and subnormal numbers are not
  modelled. \<open>fl_frac n d\<close> is the double nearest to \<open>n / d\<close>, ties to the even mantissa.
\<close>

datatype float64 = Finite nat int | Inf | NaN

fun bit_length :: "nat \<Rightarrow> nat" where
  "bit_length n = (if n = 0 then 0 else Suc (bit_length (n div 2)))"

declare bit_length.simps [simp del]

definition half_even_pick :: "nat \<Rightarrow> nat \<Rightarrow> nat \<Rightarrow> nat" where
  "half_even_pick q r2 b =
     (if r2 < b then q else if b < r2 then q + 1 else if even q then q else q + 1)"

definition round_half_even :: "nat \<Rightarrow> nat \<Rightarrow> nat" where
  "round_half_even a b = half_even_pick (a div b) (2 * (a mod b)) b"

definition fl_norm :: "nat \<Rightarrow> int \<Rightarrow> float64" where
  "fl_norm m s = (if m = 2 ^ 53 then Finite (2 ^ 52) (1 - s) else Finite m (- s))"

definition fl_at :: "int \<Rightarrow> nat \<Rightarrow> nat \<Rightarrow> float64" where
  "fl_at s n d = fl_norm (round_half_even (n * 2 ^ nat s) (d * 2 ^ nat (- s))) s"

definition fl_shift :: "nat \<Rightarrow> nat \<Rightarrow> int \<Rightarrow> int" where
  "fl_shift n d s0 = (if 2 ^ 53 * (d * 2 ^ nat (- s0)) \<le> n * 2 ^ nat s0 then s0 - 1 else s0)"

definition fl_frac :: "nat \<Rightarrow> nat \<Rightarrow> float64" where
  "fl_frac n d =
     (if n = 0 then Finite 0 0
      else fl_at (fl_shift n d (53 + int (bit_length d) - int (bit_length n))) n d)"

text \<open>Conversion of an integer, true division, multiplication and \<open>rint\<close>.\<close>

definition float_of_nat :: "nat \<Rightarrow> float64" where
  "float_of_nat n = fl_frac n 1"

fun f_div :: "float64 \<Rightarrow> float64 \<Rightarrow> float64" where
  "f_div (Finite m e) (Finite m' e') =
     (if m' = 0 then (if m = 0 then NaN else Inf)
      else fl_frac (m * 2 ^ nat e * 2 ^ nat (- e')) (2 ^ nat (- e) * (m' * 2 ^ nat e')))"
| "f_div (Finite m e) Inf = Finite 0 0"
| "f_div Inf (Finite m e) = Inf"
| "f_div _ _ = NaN"

fun f_mul :: "float64 \<Rightarrow> float64 \<Rightarrow> float64" where
  "f_mul (Finite m e) (Finite m' e') =
     fl_frac (m * 2 ^ nat e * (m' * 2 ^ nat e')) (2 ^ nat (- e) * 2 ^ nat (- e'))"
| "f_mul (Finite m e) Inf = (if m = 0 then NaN else Inf)"
| "f_mul Inf (Finite m e) = (if m = 0 then NaN else Inf)"
| "f_mul Inf Inf = Inf"
| "f_mul _ _ = NaN"

fun f_rint :: "float64 \<Rightarrow> float64" where
  "f_rint (Finite m e) = fl_frac (round_half_even (m * 2 ^ nat e) (2 ^ nat (- e))) 1"
| "f_rint x = x"

text \<open>
  \<open>Series.round(decimals)\<close> is NumPy's \<open>around\<close>: multiply by \<open>10 ** decimals\<close>, \<open>rint\<close>,
  divide by \<open>10 ** decimals\<close>, each step rounded to a double.
\<close>

definition np_round :: "float64 \<Rightarrow> nat \<Rightarrow> float64" where
  "np_round x decimals =
     f_div (f_rint (f_mul x (float_of_nat (10 ^ decimals)))) (float_of_nat (10 ^ decimals))"

subsection \<open>\<open>astype(str)\<close>: the shortest decimal that reads back as the same double\<close>

fun digits :: "nat \<Rightarrow> nat list" where
  "digits n = (if n < 10 then [n] else digits (n div 10) @ [n mod 10])"

declare digits.simps [simp del]

definition str_of_nat :: "nat \<Rightarrow> str" where
  "str_of_nat n = map (\<lambda>d. 48 + d) (digits n)"

function neg_dec_exp :: "nat \<Rightarrow> nat \<Rightarrow> nat" where
  "neg_dec_exp a b = (if a = 0 \<or> b \<le> a then 0 else Suc (neg_dec_exp (10 * a) b))"
  by pat_completeness auto
termination
  by (relation "measure (\<lambda>(a, b). b - a)") auto

declare neg_dec_exp.simps [simp del]

text \<open>\<open>dec_exp a b\<close> is the decimal exponent of \<open>a / b\<close>: \<open>10 ^ e \<le> a / b < 10 ^ (e + 1)\<close>.\<close>

definition dec_exp :: "nat \<Rightarrow> nat \<Rightarrow> int" where
  "dec_exp a b =
     (if b \<le> a then int (length (digits (a div b))) - 1 else - int (neg_dec_exp a b))"

text \<open>
  The decimal \<open>c * 10 ^ (- k)\<close> reads back as \<open>x\<close>. With \<open>n\<close> significant digits the two
  candidates are the neighbours of the value on the grid of step \<open>10 ^ (- k)\<close>; the nearer
  one is tried first. The search takes the least \<open>n\<close> that has a candidate; seventeen
  digits always read back.
\<close>

definition round_trips :: "float64 \<Rightarrow> nat \<Rightarrow> int \<Rightarrow> bool" where
  "round_trips x c k \<longleftrightarrow> fl_frac (c * 10 ^ nat (- k)) (10 ^ nat k) = x"

definition pick_decimal :: "float64 \<Rightarrow> nat \<Rightarrow> nat \<Rightarrow> int \<Rightarrow> nat option" where
  "pick_decimal x near far k =
     (if round_trips x near k then Some near
      else if round_trips x far k then Some far else None)"

definition decimal_at :: "float64 \<Rightarrow> nat \<Rightarrow> nat \<Rightarrow> int \<Rightarrow> nat option" where
  "decimal_at x a b k =
     (if half_even_pick (a div b) (2 * (a mod b)) b = a div b
      then pick_decimal x (a div b) (a div b + 1) k
      else pick_decimal x (a div b + 1) (a div b) k)"

fun shortest_decimal :: "float64 \<Rightarrow> nat \<Rightarrow> nat \<Rightarrow> int \<Rightarrow> nat list \<Rightarrow> nat \<times> int" where
  "shortest_decimal x a b e10 [] =
     (round_half_even (a * 10 ^ nat (16 - e10)) (b * 10 ^ nat (e10 - 16)), 16 - e10)"
| "shortest_decimal x a b e10 (n # ns) =
     (case decimal_at x (a * 10 ^ nat (int n - 1 - e10)) (b * 10 ^ nat (e10 + 1 - int n))
             (int n - 1 - e10) of
        Some c \<Rightarrow> (c, int n - 1 - e10)
      | None \<Rightarrow> shortest_decimal x a b e10 ns)"

function strip_zeros :: "nat \<Rightarrow> int \<Rightarrow> nat \<times> int" where
  "strip_zeros c k =
     (if c \<noteq> 0 \<and> c mod 10 = 0 then strip_zeros (c div 10) (k - 1) else (c, k))"
  by pat_completeness auto
termination
  by (relation "measure (\<lambda>(c, k). c)") auto

declare strip_zeros.simps [simp del]

fun zeros :: "nat \<Rightarrow> str" where
  "zeros n = (if n = 0 then [] else 48 # zeros (n - 1))"

declare zeros.simps [simp del]

definition exponent_text :: "int \<Rightarrow> str" where
  "exponent_text x =
     (if x < 0 then [45] else [43]) @ (if \<bar>x\<bar> < 10 then [48] else []) @ str_of_nat (nat \<bar>x\<bar>)"

text \<open>
  The layout of \<open>repr\<close>: \<open>ds\<close> are the significant digits and the decimal point stands
  after \<open>decpt\<close> of them; exponent notation is used when \<open>decpt \<le> -4\<close> or \<open>decpt > 16\<close>, and
  a whole number gets \<open>.0\<close>.
\<close>

definition repr_digits :: "str \<Rightarrow> int \<Rightarrow> str" where
  "repr_digits ds decpt =
     (if decpt \<le> - 4 \<or> 16 < decpt
      then take 1 ds @ (if 1 < length ds then 46 # drop 1 ds else []) @ [101]
             @ exponent_text (decpt - 1)
      else if decpt \<le> 0 then [48, 46] @ zeros (nat (- decpt)) @ ds
      else if int (length ds) \<le> decpt then ds @ zeros (nat decpt - length ds) @ [46, 48]
      else take (nat decpt) ds @ [46] @ drop (nat decpt) ds)"

definition repr_decimal :: "nat \<times> int \<Rightarrow> str" where
  "repr_decimal ck = repr_digits (str_of_nat (fst ck)) (int (length (digits (fst ck))) - snd ck)"

fun float_str :: "float64 \<Rightarrow> str" where
  "float_str (Finite m e) =
     (if m = 0 then [48, 46, 48]
      else repr_decimal
             (case shortest_decimal (Finite m e) (m * 2 ^ nat e) (2 ^ nat (- e))
                     (dec_exp (m * 2 ^ nat e) (2 ^ nat (- e))) [1 ..< 17] of
                (c, k) \<Rightarrow> strip_zeros c k))"
| "float_str Inf = [105, 110, 102]"
| "float_str NaN = [110, 97, 110]"

section \<open>The frequency aggregator \<open>get_word_stats\<close>\<close>

text \<open>
  \<open>Counter(words)\<close> is a dict, which keeps its keys in the order of first insertion:
  an association list, a new key going to the end.
\<close>

fun counter_incr :: "'a \<Rightarrow> ('a \<times> nat) list \<Rightarrow> ('a \<times> nat) list" where
  "counter_incr w [] = [(w, 1)]"
| "counter_incr w ((k, n) # kvs) =
     (if k = w then (k, n + 1) # kvs else (k, n) # counter_incr w kvs)"

definition Counter :: "'a list \<Rightarrow> ('a \<times> nat) list" where
  "Counter ws = foldl (\<lambda>m w. counter_incr w m) [] ws"

text \<open>A row of the data frame before and after the column \<open>Rank\<close> is added.\<close>

record word_row =
  Word :: str
  Frequency :: nat
  Percent_of_Text :: str

record ranked_row = word_row +
  Rank :: nat

text \<open>
  One cell of \<open>(df['Frequency'] / total_words * 100).round(2).astype(str) + ' %'\<close>.
\<close>

definition percent_of_text :: "nat \<Rightarrow> nat \<Rightarrow> str" where
  "percent_of_text frequency total_words =
     float_str (np_round (f_mul (f_div (float_of_nat frequency) (float_of_nat total_words))
                                (float_of_nat 100)) 2) @ [32, 37]"

text \<open>
  \<open>df.sort_values(by='Frequency', ascending=False)\<close> sorts with pandas' default
  algorithm, which is not stable: the order of rows with equal frequency is not fixed by
  the source. The sort is the parameter \<open>sort_values\<close>; \<open>sort_values_spec\<close> is what pandas
  promises of it, and \<open>stable_sort_desc\<close> is one sort that keeps it.
\<close>

definition sort_values_spec :: "(word_row list \<Rightarrow> word_row list) \<Rightarrow> bool" where
  "sort_values_spec sort_values \<longleftrightarrow>
     (\<forall>rows. mset (sort_values rows) = mset rows \<and>
        sorted_wrt (\<lambda>a b. Frequency b \<le> Frequency a) (sort_values rows))"

definition stable_sort_desc :: "word_row list \<Rightarrow> word_row list" where
  "stable_sort_desc rows = rev (sort_key Frequency (rev rows))"

text \<open>
  \<open>reset_index(drop=True)\<close>, \<open>df.index + 1\<close>, \<open>reset_index\<close> and the renaming to \<open>Rank\<close>:
  the row at position \<open>i\<close> gets rank \<open>i + 1\<close>.
\<close>

fun rank_from :: "nat \<Rightarrow> word_row list \<Rightarrow> ranked_row list" where
  "rank_from i [] = []"
| "rank_from i (r # rs) = word_row.extend r (ranked_row.fields (i + 1)) # rank_from (i + 1) rs"

definition get_word_stats ::
  "(word_row list \<Rightarrow> word_row list) \<Rightarrow> str list \<Rightarrow> ranked_row list \<times> (str \<times> nat) list" where
  "get_word_stats sort_values words =
     (let word_freq = Counter words;
          total_words = sum_list (map snd word_freq);
          df = map (\<lambda>(w, f). \<lparr>Word = w, Frequency = f,
                                Percent_of_Text = percent_of_text f total_words\<rparr>) word_freq;
          df = sort_values df;
          df = rank_from 0 df
      in (df, word_freq))"

subsection \<open>The percentage column as a number of hundredths\<close>

text \<open>
  \<open>hundredths f t\<close> is the integer that \<open>round(2)\<close> computes on the way: the percentage
  times one hundred, rounded by \<open>rint\<close>. \<open>two_decimals k\<close> writes \<open>k\<close> hundredths the way
  the column shows them: the whole part, a point and two decimals, the second one left
  out when it is zero, so that one decimal always stays (\<open>40.0\<close>, \<open>33.33\<close>, \<open>0.05\<close>).
\<close>

fun rint_nat :: "float64 \<Rightarrow> nat" where
  "rint_nat (Finite m e) = round_half_even (m * 2 ^ nat e) (2 ^ nat (- e))"
| "rint_nat x = 0"

definition hundredths :: "nat \<Rightarrow> nat \<Rightarrow> nat" where
  "hundredths frequency total_words =
     rint_nat (f_mul (f_mul (f_div (float_of_nat frequency) (float_of_nat total_words))
                            (float_of_nat 100))
                     (float_of_nat (10 ^ 2)))"

definition two_decimals :: "nat \<Rightarrow> str" where
  "two_decimals k =
     str_of_nat (k div 100) @ [46]
       @ (if k mod 10 = 0 then [48 + k div 10 mod 10]
          else [48 + k div 10 mod 10, 48 + k mod 10])"

text \<open>
  The value of a double as a real number, and rounding a real to the nearest integer,
  ties to even: they serve to state how close the stored numbers are.
\<close>

fun float_value :: "float64 \<Rightarrow> real" where
  "float_value (Finite m e) = real m * 2 powi e"
| "float_value x = 0"

definition rhe :: "real \<Rightarrow> int" where
  "rhe x = (if x - of_int \<lfloor>x\<rfloor> < 1 / 2 then \<lfloor>x\<rfloor>
            else if 1 / 2 < x - of_int \<lfloor>x\<rfloor> then \<lfloor>x\<rfloor> + 1
            else if even \<lfloor>x\<rfloor> then \<lfloor>x\<rfloor> else \<lfloor>x\<rfloor> + 1)"

section \<open>The export encoder \<open>download_button\<close>\<close>

datatype exn = RequestException | TypeError | KeyError | UnicodeEncodeError

text \<open>
  \<open>df.to_csv(index=False)\<close>: a header line and one line per row, the fields joined by
  commas and every line ended by a line feed. A field that holds a comma, a double quote,
  a line feed or a carriage return is put in double quotes, with its quotes doubled.
\<close>

definition csv_field :: "str \<Rightarrow> str" where
  "csv_field f =
     (if list_ex (\<lambda>c. c = 44 \<or> c = 34 \<or> c = 10 \<or> c = 13) f
      then [34] @ concat (map (\<lambda>c. if c = 34 then [34, 34] else [c]) f) @ [34]
      else f)"

definition csv_line :: "str list \<Rightarrow> str" where
  "csv_line cells = str_join [44] (map csv_field cells) @ [10]"

definition csv_header :: "str list" where
  "csv_header = [u ''Rank'', u ''Word'', u ''Frequency'', u ''% of Text'']"

definition csv_row :: "ranked_row \<Rightarrow> str list" where
  "csv_row r = [str_of_nat (Rank r), Word r, str_of_nat (Frequency r), Percent_of_Text r]"

definition to_csv :: "ranked_row list \<Rightarrow> str" where
  "to_csv df = csv_line csv_header @ concat (map (\<lambda>r. csv_line (csv_row r)) df)"

text \<open>
  \<open>csv.encode()\<close> is UTF-8; it raises \<open>UnicodeEncodeError\<close> on a surrogate. A number
  from \<open>1114112\<close> on is no code point and no \<open>str\<close> holds one.
\<close>

definition utf8_bytes :: "codepoint \<Rightarrow> nat list option" where
  "utf8_bytes c =
     (if c < 128 then Some [c]
      else if c < 2048 then Some [192 + c div 64, 128 + c mod 64]
      else if c < 65536 then
        (if 55296 \<le> c \<and> c \<le> 57343 then None
         else Some [224 + c div 4096, 128 + c div 64 mod 64, 128 + c mod 64])
      else if c < 1114112 then
        Some [240 + c div 262144, 128 + c div 4096 mod 64, 128 + c div 64 mod 64,
              128 + c mod 64]
      else None)"

fun encode :: "str \<Rightarrow> exn + nat list" where
  "encode [] = Inr []"
| "encode (c # cs) =
     (case utf8_bytes c of
        None \<Rightarrow> Inl UnicodeEncodeError
      | Some bs \<Rightarrow> (case encode cs of Inl e \<Rightarrow> Inl e | Inr rest \<Rightarrow> Inr (bs @ rest)))"

text \<open>\<open>base64.b64encode(bs).decode()\<close>: the standard alphabet, padded with \<open>=\<close>.\<close>

definition b64_char :: "nat \<Rightarrow> codepoint" where
  "b64_char i =
     (if i < 26 then 65 + i else if i < 52 then 97 + (i - 26)
      else if i < 62 then 48 + (i - 52) else if i = 62 then 43 else 47)"

fun b64encode :: "nat list \<Rightarrow> str" where
  "b64encode [] = []"
| "b64encode [a] = [b64_char (a div 4), b64_char (a mod 4 * 16), 61, 61]"
| "b64encode [a, b] =
     [b64_char (a div 4), b64_char (a mod 4 * 16 + b div 16), b64_char (b mod 16 * 4), 61]"
| "b64encode (a # b # c # bs) =
     [b64_char (a div 4), b64_char (a mod 4 * 16 + b div 16),
      b64_char (b mod 16 * 4 + c div 64), b64_char (c mod 64)] @ b64encode bs"

definition href_open :: str where
  "href_open = u ''<a href='' @ [34] @ u ''data:file/csv;base64,''"

definition href_close :: str where
  "href_close = [34] @ u '' download='' @ [34] @ u ''word_list.csv'' @ [34] @ u ''>''
     @ [128229] @ u '' Download CSV</a>''"

text \<open>
  \<open>download_button\<close> returns nothing; what it does is hand the link to \<open>st.markdown\<close>.
  The model returns that link, or the exception raised on the way.
\<close>

definition download_button :: "ranked_row list \<Rightarrow> exn + str" where
  "download_button df =
     (let csv = to_csv df in
      case encode csv of
        Inl e \<Rightarrow> Inl e
      | Inr bytes \<Rightarrow> (let b64 = b64encode bytes in Inr (href_open @ b64 @ href_close)))"

text \<open>
  An ASCII character that \<open>to_csv\<close> writes as it is: no comma, quote or line break.
\<close>

definition plain :: "codepoint \<Rightarrow> bool" where
  "plain c \<longleftrightarrow> c < 128 \<and> c \<noteq> 44 \<and> c \<noteq> 34 \<and> c \<noteq> 10 \<and> c \<noteq> 13"

subsection \<open>Reading the export back\<close>

text \<open>
  The repository has no reader for its export. The one below is what the round trip is
  stated against: it cuts the payload out of the link, decodes base64 and UTF-8, and parses
  comma-separated lines into rows. It reads fields that are not quoted, which is all the
  export ever holds, and gives \<open>None\<close> on anything else.
\<close>

definition b64_value :: "codepoint \<Rightarrow> nat option" where
  "b64_value c =
     (if 65 \<le> c \<and> c \<le> 90 then Some (c - 65)
      else if 97 \<le> c \<and> c \<le> 122 then Some (c - 97 + 26)
      else if 48 \<le> c \<and> c \<le> 57 then Some (c - 48 + 52)
      else if c = 43 then Some 62 else if c = 47 then Some 63 else None)"

fun b64decode :: "str \<Rightarrow> nat list option" where
  "b64decode [] = Some []"
| "b64decode (p # q # r # s # cs) =
     (case (b64_value p, b64_value q) of
        (Some i, Some j) \<Rightarrow>
          (if r = 61 \<and> s = 61 \<and> cs = [] then Some [i * 4 + j div 16]
           else case b64_value r of
             None \<Rightarrow> None
           | Some k \<Rightarrow>
               (if s = 61 \<and> cs = [] then Some [i * 4 + j div 16, j mod 16 * 16 + k div 4]
                else case (b64_value s, b64decode cs) of
                  (Some l, Some bs) \<Rightarrow>
                    Some ([i * 4 + j div 16, j mod 16 * 16 + k div 4, k mod 4 * 64 + l] @ bs)
                | _ \<Rightarrow> None))
      | _ \<Rightarrow> None)"
| "b64decode _ = None"

fun decode :: "nat list \<Rightarrow> str option" where
  "decode [] = Some []"
| "decode (b # bs) =
     (if b < 128 then map_option ((#) b) (decode bs)
      else if 192 \<le> b \<and> b < 224 then
        (case bs of
           b1 # bs' \<Rightarrow> map_option ((#) ((b - 192) * 64 + (b1 - 128))) (decode bs')
         | _ \<Rightarrow> None)
      else if 224 \<le> b \<and> b < 240 then
        (case bs of
           b1 # b2 # bs' \<Rightarrow>
             map_option ((#) ((b - 224) * 4096 + (b1 - 128) * 64 + (b2 - 128))) (decode bs')
         | _ \<Rightarrow> None)
      else if 240 \<le> b \<and> b < 248 then
        (case bs of
           b1 # b2 # b3 # bs' \<Rightarrow>
             map_option
               ((#) ((b - 240) * 262144 + (b1 - 128) * 4096 + (b2 - 128) * 64 + (b3 - 128)))
               (decode bs')
         | _ \<Rightarrow> None)
      else None)"

fun split_at :: "codepoint \<Rightarrow> str \<Rightarrow> str \<Rightarrow> str list" where
  "split_at sep cur [] = [cur]"
| "split_at sep cur (c # cs) =
     (if c = sep then cur # split_at sep [] cs else split_at sep (cur @ [c]) cs)"

fun parse_digits :: "nat \<Rightarrow> str \<Rightarrow> nat option" where
  "parse_digits acc [] = Some acc"
| "parse_digits acc (c # cs) =
     (if 48 \<le> c \<and> c \<le> 57 then parse_digits (acc * 10 + (c - 48)) cs else None)"

definition parse_nat :: "str \<Rightarrow> nat option" where
  "parse_nat s = (if s = [] then None else parse_digits 0 s)"

fun parse_row :: "str list \<Rightarrow> ranked_row option" where
  "parse_row [rank, word, frequency, percent] =
     (case (parse_nat rank, parse_nat frequency) of
        (Some k, Some f) \<Rightarrow>
          Some \<lparr>Word = word, Frequency = f, Percent_of_Text = percent, Rank = k\<rparr>
      | _ \<Rightarrow> None)"
| "parse_row _ = None"

fun parse_rows :: "str list \<Rightarrow> ranked_row list option" where
  "parse_rows [] = Some []"
| "parse_rows (l # ls) =
     (case (parse_row (split_at 44 [] l), parse_rows ls) of
        (Some r, Some rs) \<Rightarrow> Some (r # rs)
      | _ \<Rightarrow> None)"

definition read_csv :: "str \<Rightarrow> (str list \<times> ranked_row list) option" where
  "read_csv t =
     (if 34 \<in> set t then None
      else case split_at 10 [] t of
        [] \<Rightarrow> None
      | h # ls \<Rightarrow>
          (if ls = [] \<or> last ls \<noteq> [] then None
           else map_option (Pair (split_at 44 [] h)) (parse_rows (butlast ls))))"

definition payload_of :: "str \<Rightarrow> str" where
  "payload_of href = takeWhile (\<lambda>c. c \<noteq> 34) (drop (length href_open) href)"

definition read_export :: "str \<Rightarrow> (str list \<times> ranked_row list) option" where
  "read_export href =
     (case b64decode (payload_of href) of
        None \<Rightarrow> None
      | Some bytes \<Rightarrow> (case decode bytes of None \<Rightarrow> None | Some csv \<Rightarrow> read_csv csv))"

section \<open>The source resolver \<open>get_book_url\<close> and the two fetch functions\<close>

text \<open>
  The network and the HTML parser are outside the repository. \<open>requests_get url\<close> is the
  response or the exception that \<open>requests.get\<close> raises; of a response the functions read
  \<open>ok\<close> (no error status) and \<open>text\<close>, here \<open>response_ok\<close> and \<open>response_text\<close>.
  \<open>find_booklink html\<close> stands for
  \<open>BeautifulSoup(html, 'html.parser').find('li', class_='booklink')\<close>: no element, or the
  first one, of which the code reads the first anchor (if any) and its \<open>href\<close> (if any).
\<close>

record response =
  response_ok :: bool
  response_text :: str

type_synonym booklink = "str option option"

fun str_replace :: "codepoint \<Rightarrow> codepoint \<Rightarrow> str \<Rightarrow> str" where
  "str_replace a b [] = []"
| "str_replace a b (c # cs) = (if c = a then b else c) # str_replace a b cs"

definition get_book_url ::
  "(str \<Rightarrow> exn + response) \<Rightarrow> (str \<Rightarrow> booklink option) \<Rightarrow> str \<Rightarrow> exn + str option" where
  "get_book_url requests_get find_booklink book_name =
     (let search_url = u ''https://www.gutenberg.org/ebooks/search/?query=''
                         @ str_replace 32 43 book_name in
      case requests_get search_url of
        Inl e \<Rightarrow> Inl e
      | Inr response \<Rightarrow>
          (case find_booklink (response_text response) of
             None \<Rightarrow> Inr None
           | Some first_result \<Rightarrow>
               (case first_result of
                  None \<Rightarrow> Inl TypeError
                | Some None \<Rightarrow> Inl KeyError
                | Some (Some book_link) \<Rightarrow>
                    Inr (Some (u ''https://www.gutenberg.org'' @ book_link
                                 @ u ''.txt.utf-8'')))))"

text \<open>
  The two sibling fetches wrap the request in \<open>try\<close>: they return the text or \<open>None\<close>,
  with the messages shown by \<open>st.error\<close>, and cannot raise.
\<close>

definition scrape_novel :: "(str \<Rightarrow> exn + response) \<Rightarrow> str \<Rightarrow> str option \<times> str list" where
  "scrape_novel requests_get url =
     (case requests_get url of
        Inl e \<Rightarrow> (None, [u ''Error fetching the novel''])
      | Inr response \<Rightarrow>
          (if response_ok response then (Some (response_text response), [])
           else (None, [u ''Error fetching the novel''])))"

definition fetch_text_from_url :: "(str \<Rightarrow> exn + response) \<Rightarrow> str \<Rightarrow> str option" where
  "fetch_text_from_url requests_get url =
     (case requests_get url of
        Inl e \<Rightarrow> None
      | Inr response \<Rightarrow> (if response_ok response then Some (response_text response) else None))"

text \<open>
  The branch \<open>Enter Novel Name\<close> of the page, once \<open>Fetch & Analyze\<close> is clicked: the new
  session text and the messages shown, or the exception that ends the run.
\<close>

definition fetch_and_analyze ::
  "(str \<Rightarrow> exn + response) \<Rightarrow> (str \<Rightarrow> booklink option) \<Rightarrow> str \<Rightarrow> str option
     \<Rightarrow> exn + (str option \<times> str list)" where
  "fetch_and_analyze requests_get find_booklink book_name session_text =
     (case get_book_url requests_get find_booklink book_name of
        Inl e \<Rightarrow> Inl e
      | Inr None \<Rightarrow> Inr (session_text, [u ''Book not found.''])
      | Inr (Some book_url) \<Rightarrow>
          (case scrape_novel requests_get book_url of
             (fetched, shown) \<Rightarrow>
               Inr (fetched,
                    shown @ [if fetched \<noteq> None \<and> fetched \<noteq> Some []
                             then u ''Book successfully fetched!''
                             else u ''Failed to fetch the novel.''])))"

section \<open>The \<open>Analyze Text\<close> section of the page\<close>

text \<open>
  What the section shows for a text and the state of the button. The keyword model and
  the charts are outside the repository; of a report the model keeps the table, the
  counter and the download link.
\<close>

datatype view =
    No_Button
  | Button_Idle
  | Warning str
  | Report "ranked_row list" "(str \<times> nat) list" "exn + str"

definition analyze_text ::
  "str list \<Rightarrow> ulower \<Rightarrow> (word_row list \<Rightarrow> word_row list) \<Rightarrow> str \<Rightarrow> bool \<Rightarrow> view" where
  "analyze_text stopwords_english ul sort_values text clicked =
     (if str_strip text \<noteq> [] then
        (if clicked then
           (let words = clean_text stopwords_english ul text in
            if words = [] then Warning (u ''Text is too short or contains no valid words.'')
            else (case get_word_stats sort_values words of
                    (df, word_freq) \<Rightarrow> Report df word_freq (download_button df)))
         else Button_Idle)
      else No_Button)"

fun aggregated :: "view \<Rightarrow> bool" where
  "aggregated (Report df word_freq link) = True"
| "aggregated v = False"

section \<open>The normalizer as the specification words it\<close>

text \<open>
  Lowercase; delete every character that is not a Latin letter or white space; split on
  runs of white space; drop the stop words. The Latin letters are listed, and the split
  is by runs: skip the white space, take the run up to the next white space, go on.
\<close>

definition latin_letter :: "codepoint \<Rightarrow> bool" where
  "latin_letter c \<longleftrightarrow>
     c \<in> set (u ''abcdefghijklmnopqrstuvwxyzABCDEFGHIJKLMNOPQRSTUVWXYZ'')"

function split_runs :: "str \<Rightarrow> str list" where
  "split_runs s =
     (case dropWhile isspace s of
        [] \<Rightarrow> []
      | c # cs \<Rightarrow> takeWhile (\<lambda>x. \<not> isspace x) (c # cs)
                  # split_runs (dropWhile (\<lambda>x. \<not> isspace x) (c # cs)))"
  by pat_completeness auto
termination
proof (relation "measure length")
  show "wf (measure length)" by simp
next
  fix s :: str and c cs
  assume a: "dropWhile isspace s = c # cs"
  have "\<not> isspace c" using a by (metis hd_dropWhile list.sel(1) list.distinct(1))
  hence "length (dropWhile (\<lambda>x. \<not> isspace x) (c # cs)) \<le> length cs"
    by (simp add: length_dropWhile_le)
  moreover have "length (c # cs) \<le> length s"
    using a length_dropWhile_le[of isspace s] by simp
  ultimately show "(dropWhile (\<lambda>x. \<not> isspace x) (c # cs), s) \<in> measure length"
    by simp
qed

declare split_runs.simps [simp del]

definition spec_normalizer :: "str list \<Rightarrow> ulower \<Rightarrow> str \<Rightarrow> str list" where
  "spec_normalizer stopword_set ul raw_text =
     filter (\<lambda>token. token \<notin> set stopword_set)
       (split_runs (filter (\<lambda>c. latin_letter c \<or> isspace c) (str_lower ul raw_text)))"

section \<open>Properties of the normalizer\<close>

lemma lower_from_ascii_id:
  "\<forall>c\<in>set s. c < 128 \<and> \<not> is_ascii_upper c \<Longrightarrow> lower_from ul pre s = s"
  by (induction s arbitrary: pre) auto

lemma lower_from_space:
  "\<forall>pre c post. 128 \<le> c \<and> isspace c \<longrightarrow> ul pre c post = [c] \<Longrightarrow> \<forall>c\<in>set s. isspace c \<Longrightarrow>
     lower_from ul pre s = s"
  by (induction s arbitrary: pre) (auto simp: is_ascii_upper_def isspace_def)

lemma lower_from_no_upper:
  "\<forall>pre c post. 128 \<le> c \<longrightarrow> (\<forall>d\<in>set (ul pre c post). \<not> is_ascii_upper d) \<Longrightarrow>
     d \<in> set (lower_from ul pre s) \<Longrightarrow> \<not> is_ascii_upper d"
proof (induction s arbitrary: pre)
  case Nil
  then show ?case by simp
next
  case (Cons c cs)
  from Cons.prems(2) consider
      (head) "d \<in> set (if c < 128 then [if is_ascii_upper c then c + 32 else c] else ul pre c cs)"
    | (tail) "d \<in> set (lower_from ul (pre @ [c]) cs)"
    by auto
  then show ?case
  proof cases
    case head
    show ?thesis
    proof (cases "c < 128")
      case True
      with head show ?thesis by (auto simp: is_ascii_upper_def split: if_splits)
    next
      case False
      hence "128 \<le> c" and "d \<in> set (ul pre c cs)" using head by simp_all
      with Cons.prems(1) show ?thesis by blast
    qed
  next
    case tail
    then show ?thesis using Cons.IH[OF Cons.prems(1)] by blast
  qed
qed

lemma split_from_run:
  "\<forall>c\<in>set w. \<not> isspace c \<Longrightarrow> split_from cur (w @ rest) = split_from (cur @ w) rest"
  by (induction w arbitrary: cur) auto

lemma split_from_tokens:
  "\<forall>c\<in>set cur. \<not> isspace c \<Longrightarrow> t \<in> set (split_from cur s) \<Longrightarrow>
     t \<noteq> [] \<and> (\<forall>c\<in>set t. \<not> isspace c) \<and> set t \<subseteq> set cur \<union> set s"
proof (induction cur s rule: split_from.induct)
  case (1 cur)
  then show ?case by (auto split: if_splits)
next
  case (2 cur c cs)
  then show ?case by (fastforce split: if_splits)
qed

lemma split_from_all_space: "\<forall>c\<in>set s. isspace c \<Longrightarrow> split_from [] s = []"
  by (induction s) auto

lemma split_join:
  "\<forall>t\<in>set ts. t \<noteq> [] \<and> (\<forall>c\<in>set t. \<not> isspace c) \<Longrightarrow> split_from [] (str_join [32] ts) = ts"
proof (induction "[32::nat]" ts rule: str_join.induct)
  case 1
  then show ?case by simp
next
  case (2 t)
  then show ?case using split_from_run[of t "[]" "[]"] by simp
next
  case (3 t t' ts)
  then show ?case using split_from_run[of t "[]" "32 # str_join [32] (t' # ts)"]
    by (simp add: isspace_def)
qed

lemma set_str_join: "set (str_join sep ts) \<subseteq> set sep \<union> \<Union> (set ` set ts)"
  by (induction sep ts rule: str_join.induct) auto

lemma split_runs_Nil: "split_runs [] = []"
  by (simp add: split_runs.simps)

lemma split_runs_space: "isspace c \<Longrightarrow> split_runs (c # cs) = split_runs cs"
  by (subst split_runs.simps, subst (2) split_runs.simps) simp

lemma split_runs_letter:
  "\<not> isspace c \<Longrightarrow> split_runs (c # cs) =
     (c # takeWhile (\<lambda>x. \<not> isspace x) cs) # split_runs (dropWhile (\<lambda>x. \<not> isspace x) cs)"
  by (subst split_runs.simps) simp

lemma split_from_runs:
  "split_from cur s =
     (if cur = [] then split_runs s
      else (cur @ takeWhile (\<lambda>x. \<not> isspace x) s) # split_runs (dropWhile (\<lambda>x. \<not> isspace x) s))"
proof (induction s arbitrary: cur)
  case Nil
  then show ?case by (simp add: split_runs_Nil)
next
  case (Cons c cs)
  show ?case
  proof (cases "isspace c")
    case True
    then show ?thesis using Cons.IH[of "[]"] by (simp add: split_runs_space)
  next
    case False
    then show ?thesis using Cons.IH[of "cur @ [c]"] by (simp add: split_runs_letter)
  qed
qed

lemma latin_letters_upt:
  "u ''abcdefghijklmnopqrstuvwxyzABCDEFGHIJKLMNOPQRSTUVWXYZ'' = [97 ..< 123] @ [65 ..< 91]"
  by (simp add: u_def upt_rec)

lemma latin_letter_iff: "latin_letter c \<longleftrightarrow> is_ascii_lower c \<or> is_ascii_upper c"
  unfolding latin_letter_def latin_letters_upt is_ascii_lower_def is_ascii_upper_def
  by (simp only: set_append set_upt Un_iff atLeastLessThan_iff) arith

lemma str_strip_Nil_iff: "str_strip s = [] \<longleftrightarrow> (\<forall>c\<in>set s. isspace c)"
proof
  assume "\<forall>c\<in>set s. isspace c"
  hence d: "dropWhile isspace s = []" by (simp add: dropWhile_eq_Nil_conv)
  show "str_strip s = []" by (simp only: str_strip_def d rev.simps dropWhile.simps)
next
  assume a: "str_strip s = []"
  show "\<forall>c\<in>set s. isspace c"
  proof (cases "dropWhile isspace s")
    case Nil
    then show ?thesis by (simp add: dropWhile_eq_Nil_conv)
  next
    case (Cons c cs)
    hence "\<not> isspace c" by (metis hd_dropWhile list.sel(1) list.distinct(1))
    moreover have "\<forall>x\<in>set (dropWhile isspace s). isspace x"
      using a by (simp add: str_strip_def dropWhile_eq_Nil_conv)
    ultimately show ?thesis using Cons by simp
  qed
qed

lemmas text_eval = clean_text_def str_lower_def re_sub_non_letter_space_def str_split_def u_def
  nltk_stopwords_english_def ulower_rows_def is_ascii_upper_def is_ascii_lower_def isspace_def

text \<open>
  Claim C3. For every input, \<open>clean_text\<close> returns exactly the token list of the
  specification: lowercase, delete what is neither a Latin letter nor white space, split
  on runs of white space, drop the stop words. Every token is non-empty, made of lowercase
  letters \<open>a..z\<close> only, and no stop word; order and duplicates are those of the list of
  runs. The hypothesis is a fact of the Unicode table: lowercasing a code point outside
  ASCII never yields an ASCII capital.
\<close>

theorem clean_text_refines_spec:
  assumes "\<forall>pre c post. 128 \<le> c \<longrightarrow> (\<forall>d\<in>set (ul pre c post). \<not> is_ascii_upper d)"
  shows "clean_text sw ul raw = spec_normalizer sw ul raw \<and>
         (\<forall>t\<in>set (clean_text sw ul raw).
            t \<noteq> [] \<and> (\<forall>c\<in>set t. is_ascii_lower c) \<and> t \<notin> set sw)"
proof -
  let ?s = "re_sub_non_letter_space (str_lower ul raw)"
  have eq: "clean_text sw ul raw = spec_normalizer sw ul raw"
    by (simp add: clean_text_def spec_normalizer_def str_split_def re_sub_non_letter_space_def
          split_from_runs latin_letter_iff)
  have chars: "is_ascii_lower c \<or> isspace c" if "c \<in> set ?s" for c
  proof -
    from that have "c \<in> set (lower_from ul [] raw)"
      and "is_ascii_lower c \<or> is_ascii_upper c \<or> isspace c"
      by (auto simp: re_sub_non_letter_space_def str_lower_def)
    with lower_from_no_upper[OF assms] show ?thesis by blast
  qed
  have "t \<noteq> [] \<and> (\<forall>c\<in>set t. is_ascii_lower c) \<and> t \<notin> set sw"
    if "t \<in> set (clean_text sw ul raw)" for t
  proof -
    from that have t: "t \<in> set (split_from [] ?s)" and nsw: "t \<notin> set sw"
      by (auto simp: clean_text_def str_split_def Let_def)
    from split_from_tokens[OF _ t]
    have "t \<noteq> []" and "\<forall>c\<in>set t. \<not> isspace c" and "set t \<subseteq> set ?s" by auto
    with chars nsw show ?thesis by blast
  qed
  with eq show ?thesis by blast
qed

theorem clean_text_refines_spec_witness:
  "clean_text nltk_stopwords_english ulower_rows
     (u ''The Cat, the cat & 2 '' @ [8490] @ u ''ITES; '' @ [192] @ u '' la carte'')
     = map u [''cat'', ''cat'', ''kites'', ''la'', ''carte''] \<and>
   spec_normalizer nltk_stopwords_english ulower_rows
     (u ''The Cat, the cat & 2 '' @ [8490] @ u ''ITES; '' @ [192] @ u '' la carte'')
     = map u [''cat'', ''cat'', ''kites'', ''la'', ''carte'']"
proof -
  have h: "\<forall>pre c post. 128 \<le> c \<longrightarrow> (\<forall>d\<in>set (ulower_rows pre c post). \<not> is_ascii_upper d)"
    by (simp add: ulower_rows_def is_ascii_upper_def)
  have ev: "clean_text nltk_stopwords_english ulower_rows
     (u ''The Cat, the cat & 2 '' @ [8490] @ u ''ITES; '' @ [192] @ u '' la carte'')
     = map u [''cat'', ''cat'', ''kites'', ''la'', ''carte'']"
    by (simp add: text_eval)
  show ?thesis
    using clean_text_refines_spec[OF h, of nltk_stopwords_english
        "u ''The Cat, the cat & 2 '' @ [8490] @ u ''ITES; '' @ [192] @ u '' la carte''"] ev
    by simp
qed

lemma isspace_32: "isspace 32"
  by (simp add: isspace_def)

lemma clean_ascii_lower_text:
  assumes "\<forall>c\<in>set s. is_ascii_lower c \<or> c = 32"
  shows "re_sub_non_letter_space (str_lower ul s) = s"
proof -
  from assms have "\<forall>c\<in>set s. c < 128 \<and> \<not> is_ascii_upper c"
    by (auto simp: is_ascii_lower_def is_ascii_upper_def)
  hence "str_lower ul s = s" by (simp add: str_lower_def lower_from_ascii_id)
  moreover from assms have "\<forall>c\<in>set s. is_ascii_lower c \<or> is_ascii_upper c \<or> isspace c"
    using isspace_32 by blast
  ultimately show ?thesis by (simp add: re_sub_non_letter_space_def)
qed

text \<open>
  Claim C7. On a text of lowercase Latin letters and spaces only, cleaning the tokens
  joined by single spaces gives the same tokens again.
\<close>

theorem clean_text_idempotent:
  assumes "\<forall>c\<in>set x. is_ascii_lower c \<or> c = 32"
  shows "clean_text sw ul (str_join [32] (clean_text sw ul x)) = clean_text sw ul x"
proof -
  define ts where "ts = clean_text sw ul x"
  have ts: "ts = filter (\<lambda>w. w \<notin> set sw) (split_from [] x)"
    by (simp add: ts_def clean_text_def str_split_def clean_ascii_lower_text[OF assms])
  have tok: "t \<noteq> [] \<and> (\<forall>c\<in>set t. \<not> isspace c) \<and> set t \<subseteq> set x" if "t \<in> set ts" for t
  proof -
    from that have "t \<in> set (split_from [] x)" by (simp add: ts)
    from split_from_tokens[OF _ this] show ?thesis by simp
  qed
  have "\<forall>c\<in>set (str_join [32] ts). is_ascii_lower c \<or> c = 32"
  proof
    fix c assume "c \<in> set (str_join [32] ts)"
    with set_str_join[of "[32]" ts] have "c = 32 \<or> (\<exists>t\<in>set ts. c \<in> set t)" by auto
    with tok assms show "is_ascii_lower c \<or> c = 32" by blast
  qed
  hence "clean_text sw ul (str_join [32] ts)
           = filter (\<lambda>w. w \<notin> set sw) (split_from [] (str_join [32] ts))"
    by (simp add: clean_text_def str_split_def clean_ascii_lower_text)
  also have "split_from [] (str_join [32] ts) = ts"
    by (rule split_join) (use tok in blast)
  also have "filter (\<lambda>w. w \<notin> set sw) ts = ts" by (simp add: ts)
  finally show ?thesis by (simp only: ts_def)
qed

theorem clean_text_idempotent_witness:
  "clean_text nltk_stopwords_english ulower_rows
     (str_join [32] (clean_text nltk_stopwords_english ulower_rows (u ''the cat sat on the mat'')))
     = map u [''cat'', ''sat'', ''mat'']"
proof -
  have h: "\<forall>c\<in>set (u ''the cat sat on the mat''). is_ascii_lower c \<or> c = 32"
    by (simp add: u_def is_ascii_lower_def)
  have ev: "clean_text nltk_stopwords_english ulower_rows (u ''the cat sat on the mat'')
      = map u [''cat'', ''sat'', ''mat'']"
    by (simp add: text_eval)
  show ?thesis
    using clean_text_idempotent[OF h, of nltk_stopwords_english ulower_rows] ev by simp
qed

lemma clean_text_blank:
  assumes "\<forall>pre c post. 128 \<le> c \<and> isspace c \<longrightarrow> ul pre c post = [c]" and "\<forall>c\<in>set raw. isspace c"
  shows "clean_text sw ul raw = []"
proof -
  have "str_lower ul raw = raw" using assms by (simp add: str_lower_def lower_from_space)
  moreover have "re_sub_non_letter_space raw = raw"
    using assms(2) by (simp add: re_sub_non_letter_space_def)
  ultimately show ?thesis
    using assms(2) by (simp add: clean_text_def str_split_def split_from_all_space)
qed

section \<open>Properties of the frequency aggregator\<close>

lemma sum_counter_incr: "sum_list (map snd (counter_incr w m)) = Suc (sum_list (map snd m))"
  by (induction m) auto

lemma keys_counter_incr: "set (map fst (counter_incr w m)) = insert w (set (map fst m))"
proof (induction m)
  case Nil
  show ?case by simp
next
  case (Cons kv m)
  obtain k n where kv: "kv = (k, n)" by (cases kv)
  show ?case
  proof (cases "k = w")
    case True
    thus ?thesis using kv by auto
  next
    case False
    have "set (map fst (counter_incr w (kv # m))) = insert k (set (map fst (counter_incr w m)))"
      using kv False by simp
    also have "\<dots> = insert k (insert w (set (map fst m)))" by (simp only: Cons.IH)
    finally show ?thesis using kv by auto
  qed
qed

lemma distinct_counter_incr: "distinct (map fst m) \<Longrightarrow> distinct (map fst (counter_incr w m))"
proof (induction m)
  case Nil
  then show ?case by simp
next
  case (Cons kv m)
  obtain k n where kv: "kv = (k, n)" by (cases kv)
  show ?case
  proof (cases "k = w")
    case True
    with Cons.prems kv show ?thesis by simp
  next
    case False
    have "k \<notin> set (map fst (counter_incr w m))"
      using Cons.prems kv False by (simp add: keys_counter_incr del: set_map)
    with Cons kv False show ?thesis by simp
  qed
qed

lemma positive_counter_incr: "\<forall>kv\<in>set m. 0 < snd kv \<Longrightarrow> \<forall>kv\<in>set (counter_incr w m). 0 < snd kv"
  by (induction m) (fastforce split: if_splits)+

lemma foldl_counter:
  "sum_list (map snd (foldl (\<lambda>m w. counter_incr w m) m ws)) = sum_list (map snd m) + length ws"
  by (induction ws arbitrary: m) (auto simp: sum_counter_incr)

lemma foldl_counter_keys:
  "set (map fst (foldl (\<lambda>m w. counter_incr w m) m ws)) = set (map fst m) \<union> set ws"
  by (induction ws arbitrary: m) (auto simp: keys_counter_incr simp del: set_map)

lemma foldl_counter_distinct:
  "distinct (map fst m) \<Longrightarrow> distinct (map fst (foldl (\<lambda>m w. counter_incr w m) m ws))"
  by (induction ws arbitrary: m) (auto simp: distinct_counter_incr)

lemma foldl_counter_positive:
  "\<forall>kv\<in>set m. 0 < snd kv \<Longrightarrow> \<forall>kv\<in>set (foldl (\<lambda>m w. counter_incr w m) m ws). 0 < snd kv"
proof (induction ws arbitrary: m)
  case Nil
  then show ?case by simp
next
  case (Cons w ws)
  show ?case using Cons.IH[OF positive_counter_incr[OF Cons.prems]] by simp
qed

lemma Counter_total: "sum_list (map snd (Counter ws)) = length ws"
  by (simp add: Counter_def foldl_counter)

lemma Counter_keys: "set (map fst (Counter ws)) = set ws"
  by (simp add: Counter_def foldl_counter_keys del: set_map)

lemma Counter_distinct: "distinct (map fst (Counter ws))"
  by (simp add: Counter_def foldl_counter_distinct)

lemma Counter_positive: "kv \<in> set (Counter ws) \<Longrightarrow> 0 < snd kv"
  using foldl_counter_positive[of "[]" ws] by (simp add: Counter_def)

lemma length_Counter: "length (Counter ws) = card (set ws)"
proof -
  have "length (Counter ws) = length (map fst (Counter ws))" by simp
  also have "\<dots> = card (set (map fst (Counter ws)))"
    using Counter_distinct[of ws] by (simp only: distinct_card)
  finally show ?thesis by (simp only: Counter_keys)
qed

lemma Counter_le_total: "kv \<in> set (Counter ws) \<Longrightarrow> snd kv \<le> length ws"
proof -
  assume "kv \<in> set (Counter ws)"
  hence "snd kv \<in> set (map snd (Counter ws))" by auto
  hence "snd kv \<le> sum_list (map snd (Counter ws))"
    using member_le_sum_list[of "snd kv" "map snd (Counter ws)"] by simp
  thus ?thesis by (simp add: Counter_total)
qed

lemma stable_sort_desc_spec: "sort_values_spec stable_sort_desc"
proof -
  have "sorted_wrt (\<lambda>a b. Frequency b \<le> Frequency a) (rev (sort_key Frequency xs))" for xs :: "word_row list"
  proof -
    have "sorted (map Frequency (sort_key Frequency xs))" by (rule sorted_sort_key)
    hence "sorted_wrt (\<lambda>a b. Frequency a \<le> Frequency b) (sort_key Frequency xs)"
      by (simp add: sorted_map)
    thus ?thesis by (simp add: sorted_wrt_rev)
  qed
  thus ?thesis by (simp add: sort_values_spec_def stable_sort_desc_def)
qed

lemma rank_from_length: "length (rank_from i rs) = length rs"
  by (induction rs arbitrary: i) auto

lemma rank_from_Rank: "map Rank (rank_from i rs) = [Suc i ..< Suc (i + length rs)]"
proof (induction rs arbitrary: i)
  case Nil
  then show ?case by simp
next
  case (Cons r rs)
  have "[Suc i ..< Suc (i + length (r # rs))] = Suc i # [Suc (Suc i) ..< Suc (Suc i + length rs)]"
    by (simp add: upt_rec)
  thus ?case using Cons.IH[of "Suc i"] by (simp add: word_row.extend_def ranked_row.fields_def)
qed

lemma rank_from_Frequency: "map Frequency (rank_from i rs) = map Frequency rs"
  by (induction rs arbitrary: i) (auto simp: word_row.extend_def ranked_row.fields_def)

lemma rank_from_Word: "map Word (rank_from i rs) = map Word rs"
  by (induction rs arbitrary: i) (auto simp: word_row.extend_def ranked_row.fields_def)

lemma rank_from_Percent: "map Percent_of_Text (rank_from i rs) = map Percent_of_Text rs"
  by (induction rs arbitrary: i) (auto simp: word_row.extend_def ranked_row.fields_def)

lemma spec_length: "sort_values_spec srt \<Longrightarrow> length (srt rows) = length rows"
  unfolding sort_values_spec_def by (metis size_mset)

lemma spec_set: "sort_values_spec srt \<Longrightarrow> set (srt rows) = set rows"
  unfolding sort_values_spec_def by (metis set_mset_mset)






lemmas table_eval = get_word_stats_def Counter_def stable_sort_desc_def
  word_row.extend_def ranked_row.fields_def u_def

text \<open>
  Claim C1. Whatever sort pandas uses, as long as it returns the rows reordered with
  the frequencies descending, the column \<open>Rank\<close> of the table is \<open>1, 2, ..., n\<close> with
  \<open>n\<close> the number of distinct tokens, and the column \<open>Frequency\<close> never increases from
  one row to the next. This holds for every token list, the empty one included.
\<close>

theorem get_word_stats_ranks:
  assumes "sort_values_spec sort_values"
  shows "map Rank (fst (get_word_stats sort_values words)) = [1 ..< Suc (card (set words))] \<and>
         sorted_wrt (\<lambda>f g. g \<le> f) (map Frequency (fst (get_word_stats sort_values words)))"
proof -
  let ?df0 = "map (\<lambda>(w, f). \<lparr>Word = w, Frequency = f,
      Percent_of_Text = percent_of_text f (sum_list (map snd (Counter words)))\<rparr>) (Counter words)"
  have df: "fst (get_word_stats sort_values words) = rank_from 0 (sort_values ?df0)"
    by (simp add: get_word_stats_def Let_def)
  have len: "length (sort_values ?df0) = card (set words)"
    using spec_length[OF assms, of ?df0] by (simp add: length_Counter)
  have srt: "sorted_wrt (\<lambda>a b. Frequency b \<le> Frequency a) (sort_values ?df0)"
    using assms by (simp add: sort_values_spec_def)
  have "sorted_wrt (\<lambda>f g. g \<le> f) (map Frequency (sort_values ?df0))"
    using srt by (simp add: sorted_wrt_map)
  thus ?thesis by (simp add: df rank_from_Rank rank_from_Frequency len)
qed

theorem get_word_stats_ranks_witness:
  "map Rank (fst (get_word_stats stable_sort_desc (map u [''cat'', ''sat'', ''mat'', ''cat'', ''ran''])))
     = [1, 2, 3, 4] \<and>
   map Frequency (fst (get_word_stats stable_sort_desc (map u [''cat'', ''sat'', ''mat'', ''cat'', ''ran''])))
     = [2, 1, 1, 1]"
proof -
  have ev: "map Frequency (fst (get_word_stats stable_sort_desc
      (map u [''cat'', ''sat'', ''mat'', ''cat'', ''ran'']))) = [2, 1, 1, 1]"
    by (simp add: table_eval)
  have c: "card (set (map u [''cat'', ''sat'', ''mat'', ''cat'', ''ran''])) = 4"
    by (simp add: u_def card_insert_if)
  have r: "[1 ..< Suc 4] = [1, 2, 3, 4]" by (simp add: upt_rec)
  show ?thesis
    using get_word_stats_ranks[OF stable_sort_desc_spec,
        of "map u [''cat'', ''sat'', ''mat'', ''cat'', ''ran'']"] ev
    by (simp only: c r)
qed

text \<open>
  Claim C2. The counts of the frequency table returned by \<open>get_word_stats\<close> add up to
  the number of tokens given to it.
\<close>

theorem get_word_stats_total:
  "sum_list (map snd (snd (get_word_stats sort_values words))) = length words"
  by (simp add: get_word_stats_def Let_def Counter_total)

text \<open>
  Claim C9. On the empty token list \<open>get_word_stats\<close> returns a table without rows and
  an empty counter, although the total word count is zero: the division runs over an empty
  column, so nothing is divided.
\<close>

theorem get_word_stats_empty:
  assumes "sort_values_spec sort_values"
  shows "get_word_stats sort_values [] = ([], []) \<and> sum_list (map snd (Counter ([] :: str list))) = 0"
proof -
  have "sort_values [] = []" using spec_length[OF assms, of "[]"] by simp
  thus ?thesis by (simp add: get_word_stats_def Counter_def)
qed

theorem get_word_stats_empty_witness:
  "get_word_stats stable_sort_desc [] = ([], [])"
  using get_word_stats_empty[OF stable_sort_desc_spec] by simp

section \<open>The source resolver and the page\<close>

lemma get_book_url_raises:
  "requests_get (u ''https://www.gutenberg.org/ebooks/search/?query='' @ str_replace 32 43 book_name) = Inl e
     \<Longrightarrow> get_book_url requests_get find_booklink book_name = Inl e"
  by (simp add: get_book_url_def)

lemma get_book_url_not_found:
  "requests_get (u ''https://www.gutenberg.org/ebooks/search/?query='' @ str_replace 32 43 book_name) = Inr r
     \<Longrightarrow> find_booklink (response_text r) = None
     \<Longrightarrow> get_book_url requests_get find_booklink book_name = Inr None"
  by (simp add: get_book_url_def)

lemma scrape_novel_catches: "requests_get url = Inl e \<Longrightarrow> fst (scrape_novel requests_get url) = None"
  by (simp add: scrape_novel_def)

lemma fetch_text_from_url_catches: "requests_get url = Inl e \<Longrightarrow> fetch_text_from_url requests_get url = None"
  by (simp add: fetch_text_from_url_def)

text \<open>
  Claim C4. A network error during the catalog fetch should be caught and reported as a
  missing URL. In the code the request of \<open>get_book_url\<close> stands outside any \<open>try\<close>,
  and its caller has none either: with the network down, the title \<open>Dracula\<close> makes
  \<open>get_book_url\<close> raise, and the exception ends the run of the page. The two sibling
  fetches, given the same failing network, return \<open>None\<close>.
\<close>

theorem get_book_url_network_error:
  "get_book_url (\<lambda>url. Inl RequestException) (\<lambda>html. None) (u ''Dracula'') = Inl RequestException \<and>
   fetch_and_analyze (\<lambda>url. Inl RequestException) (\<lambda>html. None) (u ''Dracula'') (Some [])
     = Inl RequestException \<and>
   fst (scrape_novel (\<lambda>url. Inl RequestException) (u ''https://www.gutenberg.org/ebooks/345.txt.utf-8'')) = None \<and>
   fetch_text_from_url (\<lambda>url. Inl RequestException) (u ''https://www.gutenberg.org/ebooks/345.txt.utf-8'') = None"
  by (simp add: get_book_url_def fetch_and_analyze_def scrape_novel_def fetch_text_from_url_def)

text \<open>
  Claim C8, as stated, fails: for a blank text the page does not report the warning. The
  section is guarded by \<open>if text.strip()\<close>, so for the text of three spaces no button is
  offered and nothing is shown, even with the click taken as given.
\<close>

theorem analyze_text_blank_counterexample:
  "str_strip (u ''   '') = [] \<and>
   clean_text nltk_stopwords_english ulower_rows (u ''   '') = [] \<and>
   analyze_text nltk_stopwords_english ulower_rows stable_sort_desc (u ''   '') True = No_Button \<and>
   analyze_text nltk_stopwords_english ulower_rows stable_sort_desc (u ''   '') True
     \<noteq> Warning (u ''Text is too short or contains no valid words.'')"
  by (simp add: analyze_text_def str_strip_def text_eval)

text \<open>
  Claim C8, amended. For every empty or white-space-only text \<open>clean_text\<close> returns no
  token and the page offers no \<open>Analyze Text\<close> button. The warning is what a click shows
  for a text that is not blank and cleans to no token. In both cases, and whenever the
  token list is empty, the aggregator is not invoked. The hypothesis is a fact of the
  Unicode table: lowercasing leaves white space outside ASCII as it is.
\<close>

theorem analyze_text_blank:
  assumes "\<forall>pre c post. 128 \<le> c \<and> isspace c \<longrightarrow> ul pre c post = [c]"
  shows "((\<forall>c\<in>set raw. isspace c) \<longrightarrow>
            clean_text sw ul raw = [] \<and> analyze_text sw ul srt raw clicked = No_Button) \<and>
         (str_strip raw \<noteq> [] \<and> clean_text sw ul raw = [] \<longrightarrow>
            analyze_text sw ul srt raw True
              = Warning (u ''Text is too short or contains no valid words.'')) \<and>
         (clean_text sw ul raw = [] \<longrightarrow> \<not> aggregated (analyze_text sw ul srt raw clicked))"
proof (intro conjI impI)
  assume b: "\<forall>c\<in>set raw. isspace c"
  show "clean_text sw ul raw = []" using assms b by (rule clean_text_blank)
  from b have "str_strip raw = []" by (simp only: str_strip_Nil_iff)
  thus "analyze_text sw ul srt raw clicked = No_Button" by (simp add: analyze_text_def)
next
  assume "str_strip raw \<noteq> [] \<and> clean_text sw ul raw = []"
  thus "analyze_text sw ul srt raw True = Warning (u ''Text is too short or contains no valid words.'')"
    by (simp add: analyze_text_def)
next
  assume "clean_text sw ul raw = []"
  thus "\<not> aggregated (analyze_text sw ul srt raw clicked)"
    by (simp add: analyze_text_def)
qed

theorem analyze_text_blank_witness:
  "analyze_text nltk_stopwords_english ulower_rows stable_sort_desc (u ''  '' @ [160, 10]) True
     = No_Button \<and>
   analyze_text nltk_stopwords_english ulower_rows stable_sort_desc (u ''The 1984!'') True
     = Warning (u ''Text is too short or contains no valid words.'')"
proof -
  have h: "\<forall>pre c post. 128 \<le> c \<and> isspace c \<longrightarrow> ulower_rows pre c post = [c]"
    by (auto simp: ulower_rows_def isspace_def)
  have b: "\<forall>c\<in>set (u ''  '' @ [160, 10]). isspace c"
    by (simp add: u_def isspace_def)
  have n: "str_strip (u ''The 1984!'') \<noteq> [] \<and>
      clean_text nltk_stopwords_english ulower_rows (u ''The 1984!'') = []"
    by (simp add: str_strip_def text_eval)
  show ?thesis
    using analyze_text_blank[OF h, of "u ''  '' @ [160, 10]" nltk_stopwords_english
            stable_sort_desc True]
          analyze_text_blank[OF h, of "u ''The 1984!''" nltk_stopwords_english
            stable_sort_desc True] b n
    by blast
qed

section \<open>The worked example\<close>

lemmas float_eval = fl_frac_def fl_at_def fl_shift_def fl_norm_def round_half_even_def
  half_even_pick_def bit_length.simps float_of_nat_def np_round_def digits.simps str_of_nat_def
  neg_dec_exp.simps dec_exp_def round_trips_def pick_decimal_def decimal_at_def
  strip_zeros.simps zeros.simps exponent_text_def repr_digits_def repr_decimal_def
  percent_of_text_def upt_rec

lemma percent_2_of_5: "percent_of_text 2 5 = u ''40.0 %''"
  by (simp add: float_eval u_def)

lemma percent_1_of_5: "percent_of_text 1 5 = u ''20.0 %''"
  by (simp add: float_eval u_def)

lemma truncate_rank_from: "map word_row.truncate (rank_from i rs) = rs"
  by (induction rs arbitrary: i) (auto simp: word_row.truncate_def word_row.extend_def)

lemma sorted_desc_head:
  assumes "sorted_wrt (\<lambda>a b. Frequency b \<le> Frequency a) rs" and "r \<in> set rs"
  shows "rs \<noteq> [] \<and> Frequency r \<le> Frequency (hd rs)"
  using assms by (cases rs) auto

lemma rank_from_take1:
  "rs \<noteq> [] \<Longrightarrow> take 1 (rank_from i rs) = [word_row.extend (hd rs) (ranked_row.fields (i + 1))]"
  by (cases rs) auto

text \<open>
  Claim C5. For the text \<open>The cat sat on the mat. The cat ran.\<close>, with any stop word
  list that holds \<open>the\<close> and \<open>on\<close> but none of \<open>cat\<close>, \<open>sat\<close>, \<open>mat\<close>, \<open>ran\<close>, and any
  sort that keeps the pandas contract: the tokens are \<open>cat, sat, mat, cat, ran\<close>; the
  counter is \<open>cat 2, sat 1, mat 1, ran 1\<close>; the rows of the table are these four words with
  \<open>40.0 %\<close> for \<open>cat\<close> and \<open>20.0 %\<close> for the others; the ranks are \<open>1..4\<close> and rank 1 is
  \<open>cat\<close>.
\<close>

theorem cat_example:
  assumes "sort_values_spec srt"
    and "u ''the'' \<in> set sw" and "u ''on'' \<in> set sw"
    and "u ''cat'' \<notin> set sw" and "u ''sat'' \<notin> set sw"
    and "u ''mat'' \<notin> set sw" and "u ''ran'' \<notin> set sw"
  shows "clean_text sw ul (u ''The cat sat on the mat. The cat ran.'')
           = [u ''cat'', u ''sat'', u ''mat'', u ''cat'', u ''ran''] \<and>
         snd (get_word_stats srt ([u ''cat'', u ''sat'', u ''mat'', u ''cat'', u ''ran'']))
           = [(u ''cat'', 2), (u ''sat'', 1), (u ''mat'', 1), (u ''ran'', 1)] \<and>
         mset (map word_row.truncate
                 (fst (get_word_stats srt ([u ''cat'', u ''sat'', u ''mat'', u ''cat'', u ''ran'']))))
           = {#\<lparr>Word = u ''cat'', Frequency = 2, Percent_of_Text = u ''40.0 %''\<rparr>,
               \<lparr>Word = u ''sat'', Frequency = 1, Percent_of_Text = u ''20.0 %''\<rparr>,
               \<lparr>Word = u ''mat'', Frequency = 1, Percent_of_Text = u ''20.0 %''\<rparr>,
               \<lparr>Word = u ''ran'', Frequency = 1, Percent_of_Text = u ''20.0 %''\<rparr>#} \<and>
         map Rank (fst (get_word_stats srt ([u ''cat'', u ''sat'', u ''mat'', u ''cat'', u ''ran''])))
           = [1, 2, 3, 4] \<and>
         take 1 (fst (get_word_stats srt ([u ''cat'', u ''sat'', u ''mat'', u ''cat'', u ''ran''])))
           = [\<lparr>Word = u ''cat'', Frequency = 2, Percent_of_Text = u ''40.0 %'', Rank = 1\<rparr>]"
proof -
  let ?ws = "[u ''cat'', u ''sat'', u ''mat'', u ''cat'', u ''ran'']"
  define cat where
    "cat = \<lparr>Word = u ''cat'', Frequency = 2, Percent_of_Text = u ''40.0 %''\<rparr>"
  define df0 where "df0 = [cat,
      \<lparr>Word = u ''sat'', Frequency = 1, Percent_of_Text = u ''20.0 %''\<rparr>,
      \<lparr>Word = u ''mat'', Frequency = 1, Percent_of_Text = u ''20.0 %''\<rparr>,
      \<lparr>Word = u ''ran'', Frequency = 1, Percent_of_Text = u ''20.0 %''\<rparr>]"
  have tokens: "clean_text sw ul (u ''The cat sat on the mat. The cat ran.'') = ?ws"
    using assms(2-7)
    by (simp add: clean_text_def str_lower_def re_sub_non_letter_space_def str_split_def u_def
          is_ascii_upper_def is_ascii_lower_def isspace_def)
  have counter: "Counter ?ws = [(u ''cat'', 2), (u ''sat'', 1), (u ''mat'', 1), (u ''ran'', 1)]"
    by (simp add: Counter_def u_def)
  have pair: "get_word_stats srt ?ws = (rank_from 0 (srt df0), Counter ?ws)"
    by (simp add: get_word_stats_def Let_def counter percent_2_of_5
          percent_1_of_5[unfolded One_nat_def] df0_def cat_def)
  have perm: "mset (srt df0) = mset df0"
    and desc: "sorted_wrt (\<lambda>a b. Frequency b \<le> Frequency a) (srt df0)"
    using assms(1) by (simp_all add: sort_values_spec_def)
  have mem: "set (srt df0) = set df0" using perm by (metis set_mset_mset)
  have "size (mset (srt df0)) = size (mset df0)" by (simp only: perm)
  hence len: "length (srt df0) = 4" by (simp add: df0_def)
  have "cat \<in> set df0" by (simp add: df0_def)
  hence "cat \<in> set (srt df0)" by (simp only: mem)
  from sorted_desc_head[OF desc this]
  have ne: "srt df0 \<noteq> []" and top: "2 \<le> Frequency (hd (srt df0))"
    by (simp_all add: cat_def)
  have "hd (srt df0) \<in> set df0" using ne mem by (metis hd_in_set)
  with top have hd: "hd (srt df0) = cat" by (auto simp: df0_def)
  have ranks: "map Rank (rank_from 0 (srt df0)) = [1, 2, 3, 4]"
    by (simp add: rank_from_Rank len upt_rec)
  have first: "take 1 (rank_from 0 (srt df0))
      = [\<lparr>Word = u ''cat'', Frequency = 2, Percent_of_Text = u ''40.0 %'', Rank = 1\<rparr>]"
    unfolding rank_from_take1[OF ne] hd
    by (simp add: cat_def word_row.extend_def ranked_row.fields_def)
  have rows: "mset df0
      = {#\<lparr>Word = u ''cat'', Frequency = 2, Percent_of_Text = u ''40.0 %''\<rparr>,
          \<lparr>Word = u ''sat'', Frequency = 1, Percent_of_Text = u ''20.0 %''\<rparr>,
          \<lparr>Word = u ''mat'', Frequency = 1, Percent_of_Text = u ''20.0 %''\<rparr>,
          \<lparr>Word = u ''ran'', Frequency = 1, Percent_of_Text = u ''20.0 %''\<rparr>#}"
    by (simp add: df0_def cat_def)
  show ?thesis
    by (simp only: tokens pair fst_conv snd_conv counter truncate_rank_from perm ranks first
          rows simp_thms)
qed


theorem cat_example_witness:
  "fst (get_word_stats stable_sort_desc
          (clean_text nltk_stopwords_english ulower_rows
             (u ''The cat sat on the mat. The cat ran.'')))
     = [\<lparr>Word = u ''cat'', Frequency = 2, Percent_of_Text = u ''40.0 %'', Rank = 1\<rparr>,
        \<lparr>Word = u ''sat'', Frequency = 1, Percent_of_Text = u ''20.0 %'', Rank = 2\<rparr>,
        \<lparr>Word = u ''mat'', Frequency = 1, Percent_of_Text = u ''20.0 %'', Rank = 3\<rparr>,
        \<lparr>Word = u ''ran'', Frequency = 1, Percent_of_Text = u ''20.0 %'', Rank = 4\<rparr>]"
proof -
  have sw: "u ''the'' \<in> set nltk_stopwords_english" "u ''on'' \<in> set nltk_stopwords_english"
    "u ''cat'' \<notin> set nltk_stopwords_english" "u ''sat'' \<notin> set nltk_stopwords_english"
    "u ''mat'' \<notin> set nltk_stopwords_english" "u ''ran'' \<notin> set nltk_stopwords_english"
    by (simp_all add: nltk_stopwords_english_def u_def)
  have tokens: "clean_text nltk_stopwords_english ulower_rows
      (u ''The cat sat on the mat. The cat ran.'')
      = [u ''cat'', u ''sat'', u ''mat'', u ''cat'', u ''ran'']"
    using cat_example[OF stable_sort_desc_spec sw, of ulower_rows] by blast
  have counter: "Counter [u ''cat'', u ''sat'', u ''mat'', u ''cat'', u ''ran'']
      = [(u ''cat'', 2), (u ''sat'', 1), (u ''mat'', 1), (u ''ran'', 1)]"
    by (simp add: Counter_def u_def)
  show ?thesis
    unfolding tokens
    by (simp add: get_word_stats_def Let_def counter percent_2_of_5
          percent_1_of_5[unfolded One_nat_def] stable_sort_desc_def
          word_row.extend_def ranked_row.fields_def)
qed

section \<open>The export reads back\<close>

lemma b64_value_char: "i < 64 \<Longrightarrow> b64_value (b64_char i) = Some i"
  unfolding b64_value_def b64_char_def by (simp; arith)

lemma b64_char_not_pad: "b64_char i \<noteq> 61"
  unfolding b64_char_def by (simp; arith)

lemma b64_char_not_quote: "b64_char i \<noteq> 34"
  unfolding b64_char_def by (simp; arith)

lemma b64_char_ascii: "b64_char i < 128"
  unfolding b64_char_def by (simp; arith)

lemma quad_bounds:
  fixes a b c :: nat
  assumes "a < 256" "b < 256" "c < 256"
  shows "a div 4 < 64" "a mod 4 * 16 + b div 16 < 64" "b mod 16 * 4 + c div 64 < 64"
    "c mod 64 < 64" "a mod 4 * 16 < 64" "b mod 16 * 4 < 64"
  using assms by simp_all

lemma quad_back:
  fixes a b c :: nat
  assumes "a < 256" "b < 256" "c < 256"
  shows "a div 4 * 4 + (a mod 4 * 16 + b div 16) div 16 = a"
    "(a mod 4 * 16 + b div 16) mod 16 * 16 + (b mod 16 * 4 + c div 64) div 4 = b"
    "(b mod 16 * 4 + c div 64) mod 4 * 64 + c mod 64 = c"
    "a div 4 * 4 + (a mod 4 * 16) div 16 = a"
    "(a mod 4 * 16 + b div 16) mod 16 * 16 + (b mod 16 * 4) div 4 = b"
  using assms by simp_all

lemma b64_round_trip: "\<forall>b\<in>set bs. b < 256 \<Longrightarrow> b64decode (b64encode bs) = Some bs"
proof (induction bs rule: b64encode.induct)
  case 1
  show ?case by simp
next
  case (2 a)
  hence a: "a < 256" by simp
  show ?case
    using quad_bounds(1,5)[OF a a a] quad_back(4)[OF a a a]
    by (simp add: b64_value_char)
next
  case (3 a b)
  hence a: "a < 256" and b: "b < 256" by simp_all
  show ?case
    using quad_bounds(1,2,6)[OF a b b] quad_back(4,5)[OF a b b] quad_back(1)[OF a b b]
    by (simp add: b64_value_char b64_char_not_pad)
next
  case (4 a b c bs)
  hence a: "a < 256" and b: "b < 256" and c: "c < 256" and rest: "\<forall>b\<in>set bs. b < 256"
    by simp_all
  show ?case
    using quad_bounds(1-4)[OF a b c] quad_back(1-3)[OF a b c] "4.IH"[OF rest]
    by (simp add: b64_value_char b64_char_not_pad)
qed

lemma b64encode_chars: "c \<in> set (b64encode bs) \<Longrightarrow> c \<noteq> 34"
  by (induction bs rule: b64encode.induct) (auto simp: b64_char_not_quote)

lemma encode_ascii: "\<forall>c\<in>set s. c < 128 \<Longrightarrow> encode s = Inr s"
  by (induction s) (auto simp: utf8_bytes_def)

lemma decode_ascii: "\<forall>c\<in>set s. c < 128 \<Longrightarrow> decode s = Some s"
  by (induction s) auto

lemma payload_of_href: "\<forall>c\<in>set b64. c \<noteq> 34 \<Longrightarrow> payload_of (href_open @ b64 @ href_close) = b64"
  by (simp add: payload_of_def href_close_def takeWhile_append)

lemma split_at_run: "sep \<notin> set w \<Longrightarrow> split_at sep cur (w @ rest) = split_at sep (cur @ w) rest"
  by (induction w arbitrary: cur) auto

lemma split_at_join:
  "cells \<noteq> [] \<Longrightarrow> \<forall>f\<in>set cells. sep \<notin> set f \<Longrightarrow>
     split_at sep cur (str_join [sep] cells) = (cur @ hd cells) # tl cells"
proof (induction "[sep]" cells arbitrary: cur rule: str_join.induct)
  case 1
  then show ?case by simp
next
  case (2 t)
  then show ?case using split_at_run[of sep t cur "[]"] by simp
next
  case (3 t t' ts)
  have "split_at sep cur (t @ sep # str_join [sep] (t' # ts))
      = split_at sep (cur @ t) (sep # str_join [sep] (t' # ts))"
    using "3.prems" by (intro split_at_run) simp
  also have "\<dots> = (cur @ t) # split_at sep [] (str_join [sep] (t' # ts))" by simp
  also have "split_at sep [] (str_join [sep] (t' # ts)) = t' # ts"
    using "3.hyps"[of "[]"] "3.prems" by simp
  finally show ?case by simp
qed

lemma split_at_lines:
  "\<forall>l\<in>set ls. 10 \<notin> set l \<Longrightarrow>
     split_at 10 cur (concat (map (\<lambda>l. l @ [10]) ls)) = (case ls of [] \<Rightarrow> [cur] | l # ls' \<Rightarrow> (cur @ l) # ls' @ [[]])"
proof (induction ls arbitrary: cur)
  case Nil
  then show ?case by simp
next
  case (Cons l ls)
  have "split_at 10 cur (l @ 10 # concat (map (\<lambda>l. l @ [10]) ls))
      = split_at 10 (cur @ l) (10 # concat (map (\<lambda>l. l @ [10]) ls))"
    using Cons.prems by (intro split_at_run) simp
  also have "\<dots> = (cur @ l) # split_at 10 [] (concat (map (\<lambda>l. l @ [10]) ls))" by simp
  also have "split_at 10 [] (concat (map (\<lambda>l. l @ [10]) ls)) = ls @ [[]]"
    using Cons.IH[of "[]"] Cons.prems by (cases ls) simp_all
  finally show ?case by simp
qed

lemma digits_bound: "d \<in> set (digits n) \<Longrightarrow> d < 10"
proof (induction n rule: digits.induct)
  case (1 n)
  then show ?case by (subst (asm) digits.simps) (auto split: if_splits)
qed

lemma digits_not_Nil: "digits n \<noteq> []"
  by (subst digits.simps) simp

lemma parse_digits_append:
  "parse_digits acc (xs @ ys) = (case parse_digits acc xs of None \<Rightarrow> None | Some a \<Rightarrow> parse_digits a ys)"
  by (induction xs arbitrary: acc) auto

lemma parse_digits_of_nat:
  "parse_digits acc (str_of_nat n) = Some (acc * 10 ^ length (digits n) + n)"
proof (induction n arbitrary: acc rule: digits.induct)
  case (1 n)
  show ?case
  proof (cases "n < 10")
    case True
    then show ?thesis by (simp add: str_of_nat_def digits.simps[of n])
  next
    case False
    have d: "digits n = digits (n div 10) @ [n mod 10]" using False by (subst digits.simps) simp
    have "parse_digits acc (str_of_nat n)
        = (case parse_digits acc (str_of_nat (n div 10)) of None \<Rightarrow> None
           | Some a \<Rightarrow> parse_digits a [48 + n mod 10])"
      by (simp add: str_of_nat_def d parse_digits_append)
    also have "\<dots> = Some ((acc * 10 ^ length (digits (n div 10)) + n div 10) * 10 + n mod 10)"
      using "1.IH"[OF False, of acc] by simp
    finally show ?thesis by (simp add: d algebra_simps)
  qed
qed

lemma parse_nat_of_nat: "parse_nat (str_of_nat n) = Some n"
proof -
  have "str_of_nat n \<noteq> []" by (simp add: str_of_nat_def digits_not_Nil)
  thus ?thesis by (simp add: parse_nat_def parse_digits_of_nat)
qed

lemma str_of_nat_plain: "c \<in> set (str_of_nat n) \<Longrightarrow> plain c"
proof -
  assume "c \<in> set (str_of_nat n)"
  then obtain d where "d \<in> set (digits n)" and c: "c = 48 + d"
    by (auto simp: str_of_nat_def)
  hence "d < 10" by (simp add: digits_bound)
  thus ?thesis by (simp add: c plain_def)
qed

lemma zeros_plain: "c \<in> set (zeros n) \<Longrightarrow> plain c"
proof (induction n rule: zeros.induct)
  case (1 n)
  then show ?case by (subst (asm) zeros.simps) (auto simp: plain_def split: if_splits)
qed

lemma exponent_text_plain: "c \<in> set (exponent_text x) \<Longrightarrow> plain c"
  unfolding exponent_text_def using str_of_nat_plain
  by (auto simp: plain_def split: if_splits)

lemma repr_digits_plain:
  assumes "\<forall>c\<in>set ds. plain c" and "c \<in> set (repr_digits ds k)"
  shows "plain c"
proof -
  have t: "plain x" if "x \<in> set (take n ds)" for x n using that assms(1) by (auto dest: in_set_takeD)
  have d: "plain x" if "x \<in> set (drop n ds)" for x n using that assms(1) by (auto dest: in_set_dropD)
  have p: "plain 46" "plain 48" "plain 101" by (simp_all add: plain_def)
  from assms(2) show ?thesis
    unfolding repr_digits_def
    using t d p assms(1) zeros_plain exponent_text_plain
    by (auto split: if_splits)
qed

lemma float_str_plain: "c \<in> set (float_str x) \<Longrightarrow> plain c"
proof (cases x)
  case (Finite m e)
  assume c: "c \<in> set (float_str x)"
  show ?thesis
  proof (cases "m = 0")
    case True
    with c Finite show ?thesis by (auto simp: plain_def)
  next
    case False
    with c Finite obtain ck where "c \<in> set (repr_decimal ck)" by auto
    thus ?thesis
      unfolding repr_decimal_def using repr_digits_plain str_of_nat_plain by blast
  qed
next
  case Inf
  assume "c \<in> set (float_str x)"
  with Inf show ?thesis by (auto simp: plain_def)
next
  case NaN
  assume "c \<in> set (float_str x)"
  with NaN show ?thesis by (auto simp: plain_def)
qed

lemma percent_of_text_plain: "c \<in> set (percent_of_text f t) \<Longrightarrow> plain c"
  unfolding percent_of_text_def using float_str_plain by (auto simp: plain_def)

lemma csv_field_plain: "\<forall>c\<in>set f. plain c \<Longrightarrow> csv_field f = f"
  by (auto simp: csv_field_def plain_def list_ex_iff)

lemma csv_row_plain:
  assumes "\<forall>c\<in>set (Word r). plain c" and "\<forall>c\<in>set (Percent_of_Text r). plain c"
  shows "\<forall>f\<in>set (csv_row r). \<forall>c\<in>set f. plain c"
  using assms str_of_nat_plain by (auto simp: csv_row_def)

lemma csv_header_plain: "\<forall>f\<in>set csv_header. \<forall>c\<in>set f. plain c"
  by (simp add: csv_header_def u_def plain_def)

lemma csv_line_plain:
  assumes "\<forall>f\<in>set cells. \<forall>c\<in>set f. plain c"
  shows "csv_line cells = str_join [44] cells @ [10]"
    and "\<forall>c\<in>set (str_join [44] cells). c < 128 \<and> c \<noteq> 34 \<and> c \<noteq> 10"
proof -
  have "map csv_field cells = cells"
    using assms by (intro map_idI csv_field_plain) blast
  thus "csv_line cells = str_join [44] cells @ [10]" by (simp add: csv_line_def)
  show "\<forall>c\<in>set (str_join [44] cells). c < 128 \<and> c \<noteq> 34 \<and> c \<noteq> 10"
  proof
    fix c assume "c \<in> set (str_join [44] cells)"
    with set_str_join[of "[44]" cells] have "c = 44 \<or> (\<exists>f\<in>set cells. c \<in> set f)" by auto
    with assms show "c < 128 \<and> c \<noteq> 34 \<and> c \<noteq> 10" by (auto simp: plain_def)
  qed
qed

lemma split_cells:
  assumes "cells \<noteq> []" and "\<forall>f\<in>set cells. \<forall>c\<in>set f. plain c"
  shows "split_at 44 [] (str_join [44] cells) = cells"
proof -
  have "\<forall>f\<in>set cells. 44 \<notin> set f" using assms(2) by (auto simp: plain_def)
  from split_at_join[OF assms(1) this, of "[]"] assms(1) show ?thesis by simp
qed

lemma parse_row_csv_row: "parse_row (csv_row (r :: ranked_row)) = Some r"
  by (simp add: csv_row_def parse_nat_of_nat)

lemma parse_rows_lines:
  assumes "\<forall>r\<in>set df. (\<forall>c\<in>set (Word r). plain c) \<and> (\<forall>c\<in>set (Percent_of_Text r). plain c)"
  shows "parse_rows (map (\<lambda>r. str_join [44] (csv_row r)) df) = Some df"
  using assms
proof (induction df)
  case Nil
  then show ?case by simp
next
  case (Cons r df)
  have "csv_row r \<noteq> []" by (simp add: csv_row_def)
  moreover have "\<forall>f\<in>set (csv_row r). \<forall>c\<in>set f. plain c"
    using Cons.prems by (intro csv_row_plain) simp_all
  ultimately have "split_at 44 [] (str_join [44] (csv_row r)) = csv_row r" by (rule split_cells)
  with Cons show ?case by (simp add: parse_row_csv_row)
qed

lemma to_csv_plain:
  assumes "\<forall>r\<in>set df. (\<forall>c\<in>set (Word r). plain c) \<and> (\<forall>c\<in>set (Percent_of_Text r). plain c)"
  shows "to_csv df = concat (map (\<lambda>l. l @ [10])
           (str_join [44] csv_header # map (\<lambda>r. str_join [44] (csv_row r)) df))"
    and "\<forall>l\<in>set (str_join [44] csv_header # map (\<lambda>r. str_join [44] (csv_row r)) df).
           \<forall>c\<in>set l. c < 128 \<and> c \<noteq> 34 \<and> c \<noteq> 10"
proof -
  have rows: "\<forall>f\<in>set (csv_row r). \<forall>c\<in>set f. plain c" if "r \<in> set df" for r
    using assms that by (intro csv_row_plain) simp_all
  have "map (\<lambda>r. csv_line (csv_row r)) df = map (\<lambda>r. str_join [44] (csv_row r) @ [10]) df"
    using rows by (intro map_cong refl csv_line_plain(1)) blast
  hence "concat (map (\<lambda>r. csv_line (csv_row r)) df)
      = concat (map (\<lambda>r. str_join [44] (csv_row r) @ [10]) df)" by (rule arg_cong)
  thus "to_csv df = concat (map (\<lambda>l. l @ [10])
           (str_join [44] csv_header # map (\<lambda>r. str_join [44] (csv_row r)) df))"
    by (simp add: to_csv_def csv_line_plain(1)[OF csv_header_plain] comp_def)
  show "\<forall>l\<in>set (str_join [44] csv_header # map (\<lambda>r. str_join [44] (csv_row r)) df).
           \<forall>c\<in>set l. c < 128 \<and> c \<noteq> 34 \<and> c \<noteq> 10"
    using csv_line_plain(2)[OF csv_header_plain] csv_line_plain(2)[OF rows] by auto
qed

lemma read_csv_to_csv:
  assumes "\<forall>r\<in>set df. (\<forall>c\<in>set (Word r). plain c) \<and> (\<forall>c\<in>set (Percent_of_Text r). plain c)"
  shows "read_csv (to_csv df) = Some (csv_header, df)"
proof -
  let ?ls = "map (\<lambda>r. str_join [44] (csv_row r)) df"
  let ?h = "str_join [44] csv_header"
  note shape = to_csv_plain[OF assms]
  have noq: "34 \<notin> set (to_csv df)" using shape(2) by (auto simp: shape(1))
  have "\<forall>l\<in>set (?h # ?ls). 10 \<notin> set l" using shape(2) by blast
  from split_at_lines[OF this, of "[]"]
  have lines: "split_at 10 [] (to_csv df) = ?h # ?ls @ [[]]" by (simp add: shape(1))
  have hdr: "split_at 44 [] ?h = csv_header"
    by (rule split_cells) (simp_all add: csv_header_def u_def plain_def)
  show ?thesis
    by (simp add: read_csv_def noq lines hdr parse_rows_lines[OF assms])
qed

lemma export_reads_back:
  assumes "\<forall>r\<in>set df. (\<forall>c\<in>set (Word r). plain c) \<and> (\<forall>c\<in>set (Percent_of_Text r). plain c)"
  shows "download_button df = Inr (href_open @ b64encode (to_csv df) @ href_close) \<and>
         read_export (href_open @ b64encode (to_csv df) @ href_close) = Some (csv_header, df)"
proof -
  note shape = to_csv_plain[OF assms]
  have ascii: "\<forall>c\<in>set (to_csv df). c < 128" using shape(2) by (auto simp: shape(1))
  hence bytes: "\<forall>c\<in>set (to_csv df). c < 256" by auto
  have "payload_of (href_open @ b64encode (to_csv df) @ href_close) = b64encode (to_csv df)"
    by (rule payload_of_href) (use b64encode_chars in blast)
  thus ?thesis
    by (simp add: download_button_def read_export_def encode_ascii[OF ascii]
          b64_round_trip[OF bytes] decode_ascii[OF ascii] read_csv_to_csv[OF assms])
qed

lemma letter_plain: "is_ascii_lower c \<or> is_ascii_upper c \<Longrightarrow> plain c"
  by (auto simp: is_ascii_lower_def is_ascii_upper_def plain_def)

lemma clean_text_letters:
  assumes "t \<in> set (clean_text sw ul raw)" and "c \<in> set t"
  shows "is_ascii_lower c \<or> is_ascii_upper c"
proof -
  let ?s = "re_sub_non_letter_space (str_lower ul raw)"
  from assms(1) have "t \<in> set (split_from [] ?s)"
    by (auto simp: clean_text_def str_split_def Let_def)
  from split_from_tokens[OF _ this] assms(2) have "\<not> isspace c" and "c \<in> set ?s" by auto
  thus ?thesis by (auto simp: re_sub_non_letter_space_def)
qed

lemma rank_from_rows:
  "r \<in> set (rank_from i rs) \<Longrightarrow>
     \<exists>r0\<in>set rs. Word r = Word r0 \<and> Percent_of_Text r = Percent_of_Text r0"
  by (induction rs arbitrary: i) (auto simp: word_row.extend_def)

lemma table_rows:
  assumes "sort_values_spec srt" and "r \<in> set (fst (get_word_stats srt ws))"
  shows "Word r \<in> set ws \<and> (\<exists>f t. Percent_of_Text r = percent_of_text f t)"
proof -
  let ?df0 = "map (\<lambda>(w, f). \<lparr>Word = w, Frequency = f,
      Percent_of_Text = percent_of_text f (sum_list (map snd (Counter ws)))\<rparr>) (Counter ws)"
  from assms(2) have "r \<in> set (rank_from 0 (srt ?df0))"
    by (simp add: get_word_stats_def Let_def)
  then obtain r0 where r0: "r0 \<in> set (srt ?df0)"
    and eq: "Word r = Word r0" "Percent_of_Text r = Percent_of_Text r0"
    using rank_from_rows by blast
  from r0 have "r0 \<in> set ?df0" by (simp only: spec_set[OF assms(1)])
  then obtain w f where wf: "(w, f) \<in> set (Counter ws)"
    and r0': "r0 = \<lparr>Word = w, Frequency = f,
      Percent_of_Text = percent_of_text f (sum_list (map snd (Counter ws)))\<rparr>"
    by auto
  from wf have "w \<in> set (map fst (Counter ws))" by force
  hence "w \<in> set ws" by (simp only: Counter_keys)
  with eq r0' show ?thesis by auto
qed

text \<open>
  Claim C6. For the table that the aggregator makes of any cleaned text, the link
  written by \<open>download_button\<close> carries a payload that reads back, through base64, UTF-8
  and the comma-separated lines, as the header \<open>Rank, Word, Frequency, % of Text\<close> and
  the very rows of the table, in their order.
\<close>

theorem export_round_trip:
  assumes "sort_values_spec srt"
  shows "\<exists>href. download_button (fst (get_word_stats srt (clean_text sw ul raw))) = Inr href \<and>
           read_export href
             = Some ([u ''Rank'', u ''Word'', u ''Frequency'', u ''% of Text''],
                     fst (get_word_stats srt (clean_text sw ul raw)))"
proof -
  let ?df = "fst (get_word_stats srt (clean_text sw ul raw))"
  have "(\<forall>c\<in>set (Word r). plain c) \<and> (\<forall>c\<in>set (Percent_of_Text r). plain c)"
    if "r \<in> set ?df" for r
  proof -
    from table_rows[OF assms that] obtain f t
      where w: "Word r \<in> set (clean_text sw ul raw)"
        and p: "Percent_of_Text r = percent_of_text f t" by blast
    from w have "\<forall>c\<in>set (Word r). plain c"
      using clean_text_letters letter_plain by blast
    moreover have "\<forall>c\<in>set (Percent_of_Text r). plain c"
      using percent_of_text_plain by (simp add: p)
    ultimately show ?thesis by blast
  qed
  hence "\<forall>r\<in>set ?df. (\<forall>c\<in>set (Word r). plain c) \<and> (\<forall>c\<in>set (Percent_of_Text r). plain c)"
    by blast
  from export_reads_back[OF this] show ?thesis by (auto simp: csv_header_def)
qed

lemma cat_table:
  "fst (get_word_stats stable_sort_desc
          (clean_text nltk_stopwords_english ulower_rows
             (u ''The cat sat on the mat. The cat ran.'')))
     = [\<lparr>Word = u ''cat'', Frequency = 2, Percent_of_Text = u ''40.0 %'', Rank = 1\<rparr>,
        \<lparr>Word = u ''sat'', Frequency = 1, Percent_of_Text = u ''20.0 %'', Rank = 2\<rparr>,
        \<lparr>Word = u ''mat'', Frequency = 1, Percent_of_Text = u ''20.0 %'', Rank = 3\<rparr>,
        \<lparr>Word = u ''ran'', Frequency = 1, Percent_of_Text = u ''20.0 %'', Rank = 4\<rparr>]"
proof -
  have tokens: "clean_text nltk_stopwords_english ulower_rows
      (u ''The cat sat on the mat. The cat ran.'')
      = [u ''cat'', u ''sat'', u ''mat'', u ''cat'', u ''ran'']"
    by (simp add: text_eval)
  have counter: "Counter [u ''cat'', u ''sat'', u ''mat'', u ''cat'', u ''ran'']
      = [(u ''cat'', 2), (u ''sat'', 1), (u ''mat'', 1), (u ''ran'', 1)]"
    by (simp add: Counter_def u_def)
  show ?thesis
    unfolding tokens
    by (simp add: get_word_stats_def Let_def counter percent_2_of_5
          percent_1_of_5[unfolded One_nat_def] stable_sort_desc_def
          word_row.extend_def ranked_row.fields_def)
qed

lemma cat_download:
  "download_button
     [\<lparr>Word = u ''cat'', Frequency = 2, Percent_of_Text = u ''40.0 %'', Rank = 1\<rparr>,
      \<lparr>Word = u ''sat'', Frequency = 1, Percent_of_Text = u ''20.0 %'', Rank = 2\<rparr>,
      \<lparr>Word = u ''mat'', Frequency = 1, Percent_of_Text = u ''20.0 %'', Rank = 3\<rparr>,
      \<lparr>Word = u ''ran'', Frequency = 1, Percent_of_Text = u ''20.0 %'', Rank = 4\<rparr>]
   = Inr (href_open
       @ u ''UmFuayxXb3JkLEZyZXF1ZW5jeSwlIG9mIFRleHQKMSxjYXQsMiw0MC4wICUK''
       @ u ''MixzYXQsMSwyMC4wICUKMyxtYXQsMSwyMC4wICUKNCxyYW4sMSwyMC4wICUK''
       @ href_close)"
  by (simp add: download_button_def to_csv_def csv_line_def csv_field_def csv_header_def
        csv_row_def str_of_nat_def digits.simps utf8_bytes_def b64_char_def u_def)

theorem export_round_trip_witness:
  "download_button
     (fst (get_word_stats stable_sort_desc
             (clean_text nltk_stopwords_english ulower_rows
                (u ''The cat sat on the mat. The cat ran.''))))
   = Inr (href_open
       @ u ''UmFuayxXb3JkLEZyZXF1ZW5jeSwlIG9mIFRleHQKMSxjYXQsMiw0MC4wICUK''
       @ u ''MixzYXQsMSwyMC4wICUKMyxtYXQsMSwyMC4wICUKNCxyYW4sMSwyMC4wICUK''
       @ href_close) \<and>
   read_export (href_open
       @ u ''UmFuayxXb3JkLEZyZXF1ZW5jeSwlIG9mIFRleHQKMSxjYXQsMiw0MC4wICUK''
       @ u ''MixzYXQsMSwyMC4wICUKMyxtYXQsMSwyMC4wICUKNCxyYW4sMSwyMC4wICUK''
       @ href_close)
   = Some ([u ''Rank'', u ''Word'', u ''Frequency'', u ''% of Text''],
       [\<lparr>Word = u ''cat'', Frequency = 2, Percent_of_Text = u ''40.0 %'', Rank = 1\<rparr>,
        \<lparr>Word = u ''sat'', Frequency = 1, Percent_of_Text = u ''20.0 %'', Rank = 2\<rparr>,
        \<lparr>Word = u ''mat'', Frequency = 1, Percent_of_Text = u ''20.0 %'', Rank = 3\<rparr>,
        \<lparr>Word = u ''ran'', Frequency = 1, Percent_of_Text = u ''20.0 %'', Rank = 4\<rparr>])"
  using export_round_trip[OF stable_sort_desc_spec, of nltk_stopwords_english ulower_rows
          "u ''The cat sat on the mat. The cat ran.''"]
  unfolding cat_table cat_download by simp

section \<open>The arithmetic of the percentage column\<close>

subsection \<open>Rounding to the nearest double\<close>

lemma bit_length_bounds: "0 < n \<Longrightarrow> 2 ^ (bit_length n - 1) \<le> n \<and> n < 2 ^ bit_length n"
proof (induction n rule: bit_length.induct)
  case (1 n)
  show ?case
  proof (cases "n div 2 = 0")
    case True
    with "1.prems" have "n = 1" by (simp add: div_eq_0_iff) 
    thus ?thesis by (simp add: bit_length.simps)
  next
    case False
    hence pos: "0 < n div 2" by simp
    from "1.IH"[OF _ pos] "1.prems"
    have ih: "2 ^ (bit_length (n div 2) - 1) \<le> n div 2" "n div 2 < 2 ^ bit_length (n div 2)"
      by simp_all
    have bl: "bit_length n = Suc (bit_length (n div 2))"
      using "1.prems" by (subst bit_length.simps) simp
    have "0 < bit_length (n div 2)" using pos by (subst bit_length.simps) simp
    then obtain b where b: "bit_length (n div 2) = Suc b" by (cases "bit_length (n div 2)") auto
    from ih b have "2 ^ b \<le> n div 2" "n div 2 < 2 ^ Suc b" by simp_all
    hence "2 ^ Suc b \<le> n" "n < 2 ^ Suc (Suc b)" by (simp_all; arith)+
    thus ?thesis by (simp add: bl b)
  qed
qed

lemma rhe_near: "\<bar>of_int (rhe x) - x\<bar> \<le> 1 / 2"
  unfolding rhe_def by (auto simp: abs_le_iff; linarith)

lemma rhe_unique: "\<bar>x - of_int D\<bar> < 1 / 2 \<Longrightarrow> rhe x = D"
proof -
  assume a: "\<bar>x - of_int D\<bar> < 1 / 2"
  have "\<bar>of_int (rhe x) - of_int D :: real\<bar> < 1"
    using rhe_near[of x] a by linarith
  hence "\<bar>rhe x - D\<bar> < 1" by (metis of_int_abs of_int_diff of_int_less_1_iff)
  thus ?thesis by simp
qed

lemma rhe_of_int: "rhe (of_int k) = k"
  by (rule rhe_unique) simp

lemma rhe_nonneg: "0 \<le> x \<Longrightarrow> 0 \<le> rhe x"
  unfolding rhe_def by (auto simp: zero_le_floor) 

lemma round_half_even_rat:
  assumes "0 < b"
  shows "int (round_half_even a b) = rhe (of_nat a / of_nat b)"
proof -
  let ?x = "of_nat a / of_nat b :: real"
  have fl: "\<lfloor>?x\<rfloor> = int (a div b)" by (simp add: floor_divide_of_nat_eq)
  have "of_nat a = of_nat (a div b) * of_nat b + (of_nat (a mod b) :: real)"
    by (metis of_nat_add of_nat_mult div_mult_mod_eq)
  hence "?x = of_nat (a div b) + of_nat (a mod b) / of_nat b"
    using assms by (simp add: field_simps)
  hence fr: "?x - of_int \<lfloor>?x\<rfloor> = of_nat (a mod b) / of_nat b"
    unfolding fl by simp
  have lt: "?x - of_int \<lfloor>?x\<rfloor> < 1 / 2 \<longleftrightarrow> 2 * (a mod b) < b"
  proof -
    have "of_nat (a mod b) / of_nat b < (1 / 2 :: real) \<longleftrightarrow> (of_nat (2 * (a mod b)) :: real) < of_nat b"
      using assms by (simp add: field_simps)
    thus ?thesis by (simp only: fr of_nat_less_iff)
  qed
  have gt: "1 / 2 < ?x - of_int \<lfloor>?x\<rfloor> \<longleftrightarrow> b < 2 * (a mod b)"
  proof -
    have "(1 / 2 :: real) < of_nat (a mod b) / of_nat b \<longleftrightarrow> (of_nat b :: real) < of_nat (2 * (a mod b))"
      using assms by (simp add: field_simps)
    thus ?thesis by (simp only: fr of_nat_less_iff)
  qed
  define r where "r = ?x - of_int \<lfloor>?x\<rfloor>"
  have "rhe ?x = (if r < 1 / 2 then \<lfloor>?x\<rfloor> else if 1 / 2 < r then \<lfloor>?x\<rfloor> + 1
      else if even \<lfloor>?x\<rfloor> then \<lfloor>?x\<rfloor> else \<lfloor>?x\<rfloor> + 1)"
    by (simp only: rhe_def r_def)
  hence rhe: "rhe ?x = (if r < 1 / 2 then int (a div b) else if 1 / 2 < r then int (a div b) + 1
      else if even (int (a div b)) then int (a div b) else int (a div b) + 1)"
    by (simp only: fl)
  consider "2 * (a mod b) < b" | "b < 2 * (a mod b)" | "2 * (a mod b) = b" by linarith
  thus ?thesis
  proof cases
    case 1
    hence "r < 1 / 2" using lt by (simp add: r_def)
    with 1 show ?thesis by (simp add: rhe round_half_even_def half_even_pick_def)
  next
    case 2
    hence "1 / 2 < r" using gt by (simp add: r_def)
    hence "\<not> r < 1 / 2" by simp
    with 2 \<open>1 / 2 < r\<close> show ?thesis
      by (simp add: rhe round_half_even_def half_even_pick_def)
  next
    case 3
    hence "\<not> r < 1 / 2" "\<not> 1 / 2 < r" using lt gt by (simp_all add: r_def)
    with 3 show ?thesis by (simp add: rhe round_half_even_def half_even_pick_def)
  qed
qed

lemma round_half_even_ratio:
  assumes "0 < b" "0 < b'" "a * b' = a' * b"
  shows "round_half_even a b = round_half_even a' b'"
proof -
  have "(of_nat a * of_nat b' :: real) = of_nat a' * of_nat b"
    using assms(3) by (metis of_nat_mult)
  hence "(of_nat a / of_nat b :: real) = of_nat a' / of_nat b'"
    using assms(1,2) by (simp add: field_simps)
  hence "int (round_half_even a b) = int (round_half_even a' b')"
    by (simp add: round_half_even_rat assms)
  thus ?thesis by simp
qed

lemma pow_ratio: "(2::real) ^ nat s / 2 ^ nat (- s) = 2 powi s"
  by (cases "0 \<le> s") (simp_all add: power_int_def field_simps)

lemma scaled_ratio:
  "(of_nat (n * 2 ^ nat s) :: real) / of_nat (d * 2 ^ nat (- s)) = of_nat n / of_nat d * 2 powi s"
  by (simp add: pow_ratio[symmetric])

lemma powi_pos: "0 < (2::real) powi s"
  by simp

lemma powi_step: "(2::real) powi (s - 1) = 2 powi s / 2"
  by (simp add: power_int_diff)

lemma powi_mono: "s \<le> t \<Longrightarrow> (2::real) powi s \<le> 2 powi t"
  by (simp add: power_int_increasing)

lemma bit_length_real:
  assumes "0 < n"
  shows "(2::real) powi (int (bit_length n) - 1) \<le> real n" and "real n < 2 powi int (bit_length n)"
proof -
  from bit_length_bounds[OF assms]
  have a: "2 ^ (bit_length n - 1) \<le> n" and b: "n < 2 ^ bit_length n" by simp_all
  have pos: "0 < bit_length n" using assms by (subst bit_length.simps) simp
  have "(2::real) ^ (bit_length n - 1) \<le> real n"
    using a by (metis of_nat_le_iff of_nat_numeral of_nat_power)
  moreover have "int (bit_length n) - 1 = int (bit_length n - 1)" using pos by simp
  ultimately show "(2::real) powi (int (bit_length n) - 1) \<le> real n"
    by (simp only: power_int_of_nat)
  have "real n < (2::real) ^ bit_length n"
    using b by (metis of_nat_less_iff of_nat_numeral of_nat_power)
  thus "real n < 2 powi int (bit_length n)" by (simp only: power_int_of_nat)
qed

lemma shift_start:
  assumes "0 < n" "0 < d"
  defines "s0 \<equiv> 53 + int (bit_length d) - int (bit_length n)"
  shows "2 ^ 52 < real n / real d * 2 powi s0" and "real n / real d * 2 powi s0 < 2 ^ 54"
proof -
  let ?N = "(2::real) powi int (bit_length n)" and ?D = "(2::real) powi int (bit_length d)"
  have N: "?N / 2 \<le> real n" "real n < ?N"
    using bit_length_real[OF assms(1)] by (simp_all add: powi_step)
  have D: "?D / 2 \<le> real d" "real d < ?D"
    using bit_length_real[OF assms(2)] by (simp_all add: powi_step)
  have s0: "2 powi s0 = 2 ^ 53 * ?D / ?N"
    unfolding s0_def by (simp add: power_int_add power_int_diff)
  have dpos: "0 < real d" and npos: "0 < real n" using assms by simp_all
  have Npos: "0 < ?N" and Dpos: "0 < ?D" by simp_all
  have eq: "real n / real d * 2 powi s0 = 2 ^ 53 * (real n / ?N) * (?D / real d)"
    unfolding s0 by (simp add: field_simps)
  have x: "1 / 2 \<le> real n / ?N" "real n / ?N < 1"
    using N Npos by (simp_all add: field_simps)
  have y: "1 < ?D / real d" "?D / real d \<le> 2"
    using D dpos by (simp_all add: field_simps)
  have "1 / 2 < (real n / ?N) * (?D / real d)"
  proof -
    have "1 / 2 * 1 < (real n / ?N) * (?D / real d)"
      using x(1) y(1) by (intro mult_le_less_imp_less) simp_all
    thus ?thesis by simp
  qed
  thus "2 ^ 52 < real n / real d * 2 powi s0" unfolding eq by simp
  have "(real n / ?N) * (?D / real d) < 1 * 2"
    using x y by (intro mult_less_le_imp_less) simp_all
  thus "real n / real d * 2 powi s0 < 2 ^ 54" unfolding eq by simp
qed

lemma fl_shift_test:
  assumes "0 < d"
  shows "2 ^ 53 * (d * 2 ^ nat (- s0)) \<le> n * 2 ^ nat s0 \<longleftrightarrow> 2 ^ 53 \<le> real n / real d * 2 powi s0"
proof -
  let ?A = "n * 2 ^ nat s0" and ?B = "d * 2 ^ nat (- s0)"
  have B: "0 < real ?B" using assms by simp
  have "2 ^ 53 * ?B \<le> ?A \<longleftrightarrow> real (2 ^ 53 * ?B) \<le> real ?A" by (simp only: of_nat_le_iff)
  also have "\<dots> \<longleftrightarrow> 2 ^ 53 * real ?B \<le> real ?A" by simp
  also have "\<dots> \<longleftrightarrow> 2 ^ 53 \<le> real ?A / real ?B" using B by (simp only: pos_le_divide_eq)
  also have "real ?A / real ?B = real n / real d * 2 powi s0" by (rule scaled_ratio)
  finally show ?thesis .
qed

lemma shift_range:
  assumes "0 < n" "0 < d"
  defines "s \<equiv> fl_shift n d (53 + int (bit_length d) - int (bit_length n))"
  shows "2 ^ 52 \<le> real n / real d * 2 powi s" and "real n / real d * 2 powi s < 2 ^ 53"
proof -
  define s0 where "s0 = 53 + int (bit_length d) - int (bit_length n)"
  define q where "q = real n / real d"
  have b: "2 ^ 52 < q * 2 powi s0" "q * 2 powi s0 < 2 ^ 54"
    using shift_start[OF assms(1,2)] by (simp_all add: s0_def q_def)
  have half: "q * 2 powi (s0 - 1) = q * 2 powi s0 / 2" by (simp add: powi_step)
  have s: "s = (if 2 ^ 53 \<le> q * 2 powi s0 then s0 - 1 else s0)"
    unfolding s_def fl_shift_def fl_shift_test[OF assms(2)] s0_def q_def by simp
  have "2 ^ 52 \<le> q * 2 powi s \<and> q * 2 powi s < 2 ^ 53"
  proof (cases "2 ^ 53 \<le> q * 2 powi s0")
    case True
    hence "s = s0 - 1" by (simp add: s)
    moreover have "2 ^ 52 \<le> q * 2 powi s0 / 2" "q * 2 powi s0 / 2 < 2 ^ 53"
      using True b by simp_all
    ultimately show ?thesis by (simp only: half)
  next
    case False
    hence "s = s0" by (simp add: s)
    with False b show ?thesis by simp
  qed
  thus "2 ^ 52 \<le> real n / real d * 2 powi s" and "real n / real d * 2 powi s < 2 ^ 53"
    by (simp_all add: q_def)
qed

lemma shift_unique:
  fixes q :: real
  assumes "0 < q" "2 ^ 52 \<le> q * 2 powi s" "q * 2 powi s < 2 ^ 53"
    "2 ^ 52 \<le> q * 2 powi t" "q * 2 powi t < 2 ^ 53"
  shows "s = (t::int)"
proof -
  have lt: False if "a < b" "2 ^ 52 \<le> q * 2 powi a" "q * 2 powi b < 2 ^ 53" for a b :: int
  proof -
    from that(1) have "a + 1 \<le> b" by simp
    hence "(2::real) powi (a + 1) \<le> 2 powi b" by (rule powi_mono)
    hence "2 * (2::real) powi a \<le> (2::real) powi b" by (simp add: power_int_add)
    hence "q * (2 * (2::real) powi a) \<le> q * (2::real) powi b"
      using assms(1) by (intro mult_left_mono) simp_all
    with that(2,3) show False by simp
  qed
  show ?thesis using lt[of s t] lt[of t s] assms(2-5) by (cases s t rule: linorder_cases) auto
qed

lemma fl_frac_char:
  assumes "0 < n" "0 < d"
    and "2 ^ 52 \<le> real n / real d * 2 powi s" "real n / real d * 2 powi s < 2 ^ 53"
  shows "fl_frac n d = fl_norm (nat (rhe (real n / real d * 2 powi s))) s"
proof -
  define t where "t = fl_shift n d (53 + int (bit_length d) - int (bit_length n))"
  have q: "0 < real n / real d" using assms(1,2) by simp
  have "t = s"
    using shift_range[OF assms(1,2)] assms(3,4) unfolding t_def[symmetric]
    by (intro shift_unique[OF q]) 
  have B: "0 < d * 2 ^ nat (- s)" using assms(2) by simp
  have "int (round_half_even (n * 2 ^ nat s) (d * 2 ^ nat (- s))) = rhe (real n / real d * 2 powi s)"
    by (simp only: round_half_even_rat[OF B] scaled_ratio)
  hence "round_half_even (n * 2 ^ nat s) (d * 2 ^ nat (- s)) = nat (rhe (real n / real d * 2 powi s))"
    by simp
  thus ?thesis
    using assms(1) by (simp add: fl_frac_def fl_at_def t_def[symmetric] \<open>t = s\<close>)
qed

lemma fl_frac_ratio:
  assumes "0 < n" "0 < d" "0 < n'" "0 < d'" and "real n / real d = real n' / real d'"
  shows "fl_frac n d = fl_frac n' d'"
proof -
  define s where "s = fl_shift n d (53 + int (bit_length d) - int (bit_length n))"
  note r = shift_range[OF assms(1,2), folded s_def]
  have "fl_frac n d = fl_norm (nat (rhe (real n / real d * 2 powi s))) s"
    by (rule fl_frac_char[OF assms(1,2) r])
  moreover have "fl_frac n' d' = fl_norm (nat (rhe (real n' / real d' * 2 powi s))) s"
    by (rule fl_frac_char[OF assms(3,4)]) (use r assms(5) in simp_all)
  ultimately show ?thesis by (simp add: assms(5))
qed

lemma float_value_norm: "float_value (fl_norm m s) = real m * 2 powi (- s)"
  by (simp add: fl_norm_def power_int_diff power_int_minus field_simps)

lemma fl_frac_value:
  assumes "0 < n" "0 < d"
  obtains m e where "fl_frac n d = Finite m e" and "0 < m"
    and "\<bar>float_value (fl_frac n d) - real n / real d\<bar> \<le> real n / real d / 2 ^ 53"
proof -
  define s where "s = fl_shift n d (53 + int (bit_length d) - int (bit_length n))"
  define q where "q = real n / real d"
  define x where "x = q * 2 powi s"
  have r: "2 ^ 52 \<le> x" "x < 2 ^ 53"
    using shift_range[OF assms(1,2)] by (simp_all add: x_def q_def s_def)
  have fl: "fl_frac n d = fl_norm (nat (rhe x)) s"
    unfolding x_def q_def by (rule fl_frac_char[OF assms(1,2)]) (use r in \<open>simp_all add: x_def q_def\<close>)
  have near: "\<bar>of_int (rhe x) - x\<bar> \<le> 1 / 2" by (rule rhe_near)
  moreover have "1 \<le> x" using r(1) by simp
  ultimately have "(0::real) < of_int (rhe x)" by linarith
  hence "0 < rhe x" by simp
  hence M: "real (nat (rhe x)) = of_int (rhe x)" and Mpos: "0 < nat (rhe x)" by simp_all
  have val: "float_value (fl_frac n d) = of_int (rhe x) * 2 powi (- s)"
    by (simp only: fl float_value_norm M)
  have inv: "2 powi s * 2 powi (- s) = (1::real)" by (simp add: power_int_minus)
  have qx: "q = x * 2 powi (- s)" unfolding x_def using inv by (simp add: mult.assoc)
  have "\<bar>float_value (fl_frac n d) - q\<bar> = \<bar>of_int (rhe x) - x\<bar> * 2 powi (- s)"
    unfolding val qx by (simp add: abs_mult left_diff_distrib[symmetric])
  also have "\<dots> \<le> 1 / 2 * 2 powi (- s)" using near by (intro mult_right_mono) simp_all
  also have "2 powi (- s) \<le> q / 2 ^ 52"
  proof -
    have "2 ^ 52 * 2 powi (- s) \<le> x * 2 powi (- s)" using r(1) by (intro mult_right_mono) simp_all
    thus ?thesis by (simp add: qx[symmetric] field_simps)
  qed
  finally have err: "\<bar>float_value (fl_frac n d) - q\<bar> \<le> q / 2 ^ 53" by simp
  have "\<exists>m e. fl_norm (nat (rhe x)) s = Finite m e \<and> 0 < m"
  proof (cases "nat (rhe x) = 2 ^ 53")
    case True
    hence "fl_norm (nat (rhe x)) s = Finite (2 ^ 52) (1 - s)" by (simp add: fl_norm_def)
    thus ?thesis by simp
  next
    case False
    hence "fl_norm (nat (rhe x)) s = Finite (nat (rhe x)) (- s)" by (simp add: fl_norm_def)
    thus ?thesis using Mpos by simp
  qed
  then obtain m e where me: "fl_norm (nat (rhe x)) s = Finite m e" and "0 < m" by blast
  show ?thesis
    by (rule that[of m e]) (use me fl \<open>0 < m\<close> err q_def in simp_all)
qed

lemma fl_frac_exact:
  assumes "0 < n" "0 < d" and "2 ^ 52 \<le> real n / real d * 2 powi s" "real n / real d * 2 powi s < 2 ^ 53"
    and "real n / real d * 2 powi s = of_int z"
  shows "float_value (fl_frac n d) = real n / real d"
proof -
  have "0 \<le> z" using assms(3,5) by (metis of_int_0_le_iff order_trans zero_le_numeral zero_le_power)
  have "rhe (real n / real d * 2 powi s) = z" by (simp only: assms(5) rhe_of_int)
  hence "fl_frac n d = fl_norm (nat z) s"
    by (simp only: fl_frac_char[OF assms(1-4)])
  hence "float_value (fl_frac n d) = of_int z * 2 powi (- s)"
    using \<open>0 \<le> z\<close> by (simp add: float_value_norm)
  also have "\<dots> = real n / real d * (2 powi s * 2 powi (- s))"
    by (simp add: assms(5)[symmetric] mult.assoc)
  also have "\<dots> = real n / real d" by (simp add: power_int_minus)
  finally show ?thesis .
qed

subsection \<open>The shortest decimal of a number of hundredths\<close>

lemma pow10_ratio: "(10::real) ^ nat j / 10 ^ nat (- j) = 10 powi j"
  by (cases "0 \<le> j") (simp_all add: power_int_def field_simps)

lemma scaled10_ratio:
  "real (a * 10 ^ nat j) / real (b * 10 ^ nat (- j)) = real a / real b * 10 powi j"
  by (simp add: pow10_ratio[symmetric])

lemma candidate_value:
  "real (c * 10 ^ nat (- j)) / real (10 ^ nat j) = real c * 10 powi (- j)"
  using scaled10_ratio[of c "- j" 1] by simp

lemma powi10_inv: "(10::real) powi j * 10 powi (- j) = 1"
  by (simp add: power_int_minus)

lemma length_digits_le: "n < 1000 \<Longrightarrow> length (digits n) \<le> 3"
  by (subst digits.simps, subst digits.simps, subst digits.simps) (simp add: digits.simps[of 0])

lemma length_digits_pos: "0 < length (digits n)"
  by (subst digits.simps) simp

lemma neg_dec_exp_le: "b \<le> 1000 * a \<Longrightarrow> neg_dec_exp a b \<le> 3"
  by (subst neg_dec_exp.simps, subst neg_dec_exp.simps, subst neg_dec_exp.simps,
      subst neg_dec_exp.simps) simp

lemma dec_exp_range:
  assumes "0 < b" "a < 1000 * b" "b \<le> 1000 * a"
  shows "- 3 \<le> dec_exp a b" "dec_exp a b \<le> 2"
proof -
  have "a div b < 1000" using assms(1,2) by (simp add: less_mult_imp_div_less mult.commute)
  hence l: "length (digits (a div b)) \<le> 3" by (rule length_digits_le)
  show "- 3 \<le> dec_exp a b"
    using neg_dec_exp_le[OF assms(3)] length_digits_pos[of "a div b"]
    by (simp add: dec_exp_def)
  show "dec_exp a b \<le> 2"
    using l by (simp add: dec_exp_def)
qed

lemma half_even_pick_cases: "half_even_pick q r b = q \<or> half_even_pick q r b = q + 1"
  by (simp add: half_even_pick_def)

lemma decimal_at_pass:
  assumes "round_trips x (round_half_even A B) j"
  shows "decimal_at x A B j = Some (round_half_even A B)"
  using assms half_even_pick_cases[of "A div B" "2 * (A mod B)" B]
  by (auto simp: decimal_at_def pick_decimal_def round_half_even_def)

lemma decimal_at_fail:
  assumes "\<not> round_trips x (A div B) j" "\<not> round_trips x (A div B + 1) j"
  shows "decimal_at x A B j = None"
  using assms by (simp add: decimal_at_def pick_decimal_def)

lemma pass_level:
  assumes "0 < K" and "real D * 10 powi (- j) = real K / 100"
  shows "round_trips (fl_frac K 100) D j"
proof -
  have "0 < real D * 10 powi (- j)" using assms by simp
  hence "0 < D" by (simp add: zero_less_mult_iff)
  have "real (D * 10 ^ nat (- j)) / real (10 ^ nat j) = real K / real 100"
    using assms(2) by (simp only: candidate_value of_nat_numeral)
  hence "fl_frac (D * 10 ^ nat (- j)) (10 ^ nat j) = fl_frac K 100"
    using \<open>0 < D\<close> assms(1) by (intro fl_frac_ratio) simp_all
  thus ?thesis by (simp add: round_trips_def)
qed

lemma fail_level:
  assumes "0 < K" "K \<le> 10000"
    and "real c * 10 powi (- j) \<le> 1000"
    and "1 / 100 \<le> \<bar>real c * 10 powi (- j) - real K / 100\<bar>"
  shows "\<not> round_trips (fl_frac K 100) c j"
proof
  assume "round_trips (fl_frac K 100) c j"
  hence eq: "fl_frac (c * 10 ^ nat (- j)) (10 ^ nat j) = fl_frac K 100"
    by (simp add: round_trips_def)
  obtain m e where x: "fl_frac K 100 = Finite m e" and m: "0 < m"
    and xe: "\<bar>float_value (fl_frac K 100) - real K / real 100\<bar> \<le> real K / real 100 / 2 ^ 53"
    using fl_frac_value[of K 100] assms(1) by (metis zero_less_numeral)
  have "0 < c"
  proof (rule ccontr)
    assume "\<not> 0 < c"
    hence "fl_frac (c * 10 ^ nat (- j)) (10 ^ nat j) = Finite 0 0" by (simp add: fl_frac_def)
    with eq x m show False by simp
  qed
  define cand where "cand = real c * 10 powi (- j)"
  have cpos: "0 < c * 10 ^ nat (- j)" "0 < (10::nat) ^ nat j" using \<open>0 < c\<close> by simp_all
  obtain m' e' where
    ce: "\<bar>float_value (fl_frac (c * 10 ^ nat (- j)) (10 ^ nat j)) - cand\<bar> \<le> cand / 2 ^ 53"
    using fl_frac_value[OF cpos] unfolding cand_def candidate_value by metis
  let ?v = "float_value (fl_frac K 100)"
  have d: "real K / real 100 \<le> 100" using assms(2) by simp
  have c: "cand \<le> 1000" using assms(3) by (simp add: cand_def)
  have "\<bar>cand - real K / real 100\<bar> \<le> \<bar>?v - cand\<bar> + \<bar>?v - real K / real 100\<bar>" by linarith
  also have "\<dots> \<le> cand / 2 ^ 53 + real K / real 100 / 2 ^ 53"
    using ce xe by (simp only: eq add_mono)
  also have "\<dots> \<le> 1000 / 2 ^ 53 + 100 / 2 ^ 53"
    using c d by (intro add_mono divide_right_mono) simp_all
  also have "\<dots> < 1 / 100" by simp
  finally show False using assms(4) by (simp add: cand_def)
qed

lemma level_pass:
  assumes "0 < K" "K \<le> 10000" "0 < b"
    and vd: "\<bar>real a / real b - real K / 100\<bar> \<le> real K / 100 / 2 ^ 53"
    and D: "real D * 10 powi (- j) = real K / 100" and j: "j \<le> 3"
  shows "decimal_at (fl_frac K 100) (a * 10 ^ nat j) (b * 10 ^ nat (- j)) j = Some D"
proof -
  let ?A = "a * 10 ^ nat j" and ?B = "b * 10 ^ nat (- j)"
  define y where "y = real a / real b * 10 powi j"
  have B: "0 < ?B" using assms(3) by simp
  have Dy: "real D = real K / 100 * 10 powi j"
  proof -
    have "real D = real D * (10 powi (- j) * 10 powi j)" using powi10_inv[of "- j"] by simp
    also have "\<dots> = (real D * 10 powi (- j)) * 10 powi j" by (simp only: mult.assoc)
    also have "\<dots> = real K / 100 * 10 powi j" by (simp only: D)
    finally show ?thesis .
  qed
  have p: "(10::real) powi j \<le> 1000"
  proof -
    have "(10::real) powi j \<le> 10 powi 3" using j by (intro power_int_increasing) simp_all
    thus ?thesis by simp
  qed
  have "y - real D = (real a / real b - real K / 100) * 10 powi j"
    unfolding y_def Dy by (simp add: algebra_simps)
  hence "\<bar>y - real D\<bar> = \<bar>real a / real b - real K / 100\<bar> * \<bar>10 powi j\<bar>"
    by (simp only: abs_mult)
  also have "\<bar>(10::real) powi j\<bar> = 10 powi j" by simp
  finally have "\<bar>y - real D\<bar> = \<bar>real a / real b - real K / 100\<bar> * 10 powi j" .
  also have "\<dots> \<le> (real K / 100 / 2 ^ 53) * 10 powi j"
    using vd by (intro mult_right_mono) simp_all
  also have "\<dots> \<le> (100 / 2 ^ 53) * 1000"
    using assms(2) p by (intro mult_mono) simp_all
  also have "\<dots> < 1 / 2" by simp
  finally have "\<bar>y - of_int (int D)\<bar> < 1 / 2" by simp
  hence "rhe y = int D" by (rule rhe_unique)
  hence "int (round_half_even ?A ?B) = int D"
    by (simp only: round_half_even_rat[OF B] scaled10_ratio y_def)
  hence r: "round_half_even ?A ?B = D" by simp
  have "round_trips (fl_frac K 100) D j" using assms(1) D by (rule pass_level)
  with decimal_at_pass[of "fl_frac K 100" ?A ?B j] show ?thesis by (simp add: r)
qed

lemma level_fail:
  assumes "0 < K" "K \<le> 10000" "0 < b"
    and vd: "\<bar>real a / real b - real K / 100\<bar> \<le> real K / 100 / 2 ^ 53"
    and no: "\<forall>D. real D * 10 powi (- j) \<noteq> real K / 100" and j: "- 2 \<le> j"
  shows "decimal_at (fl_frac K 100) (a * 10 ^ nat j) (b * 10 ^ nat (- j)) j = None"
proof -
  let ?A = "a * 10 ^ nat j" and ?B = "b * 10 ^ nat (- j)"
  define y where "y = real a / real b * 10 powi j"
  have B: "0 < real ?B" using assms(3) by simp
  have j1: "j \<le> 1"
  proof (rule ccontr)
    assume "\<not> j \<le> 1"
    hence j2: "2 \<le> j" by simp
    have "real (K * 10 ^ nat (j - 2)) * 10 powi (- j) = real K * (10 powi (j - 2) * 10 powi (- j))"
      using j2 by (simp add: power_int_def)
    also have "10 powi (j - 2) * 10 powi (- j) = (10::real) powi (- 2)"
      by (simp add: power_int_add[symmetric])
    finally have "real (K * 10 ^ nat (j - 2)) * 10 powi (- j) = real K / 100"
      by (simp add: power_int_minus)
    with no show False by blast
  qed
  have v: "real a / real b \<le> 101"
  proof -
    have "real a / real b \<le> real K / 100 + real K / 100 / 2 ^ 53" using vd by linarith
    also have "\<dots> \<le> 100 + 100 / 2 ^ 53"
      using assms(2) by (intro add_mono divide_right_mono) simp_all
    also have "\<dots> \<le> 101" by simp
    finally show ?thesis .
  qed
  have pm: "(10::real) powi (- j) \<le> 100"
  proof -
    have "(10::real) powi (- j) \<le> 10 powi 2" using j by (intro power_int_increasing) simp_all
    thus ?thesis by simp
  qed
  have lo: "real (?A div ?B) \<le> y"
  proof -
    have "real (?A div ?B) \<le> real ?A / real ?B" by (rule of_nat_div_le_of_nat)
    thus ?thesis by (simp only: scaled10_ratio y_def)
  qed
  have fail: "\<not> round_trips (fl_frac K 100) c j" if c: "real c \<le> y + 1" for c
  proof (rule fail_level[OF assms(1,2)])
    have "real c * 10 powi (- j) \<le> (y + 1) * 10 powi (- j)"
      using c by (intro mult_right_mono) simp_all
    also have "\<dots> = real a / real b * (10 powi j * 10 powi (- j)) + 10 powi (- j)"
      by (simp add: y_def algebra_simps)
    also have "\<dots> = real a / real b + 10 powi (- j)" by (simp add: powi10_inv)
    also have "\<dots> \<le> 101 + 100" using v pm by (rule add_mono)
    finally show "real c * 10 powi (- j) \<le> 1000" by simp
    have e: "(10::real) powi (- j) = 10 ^ nat (2 - j) / 100"
    proof -
      have "(10::real) powi (- j) = 10 powi (2 - j) * 10 powi (- 2)"
        using power_int_add[of "10::real" "2 - j" "- 2"] by simp
      also have "(10::real) powi (2 - j) = 10 ^ nat (2 - j)" using j1 by (simp add: power_int_def)
      finally show ?thesis by (simp add: power_int_minus)
    qed
    have "c * 10 ^ nat (2 - j) \<noteq> K"
    proof
      assume "c * 10 ^ nat (2 - j) = K"
      hence "real c * 10 ^ nat (2 - j) = real K" by (metis of_nat_mult of_nat_power of_nat_numeral)
      hence "real c * 10 powi (- j) = real K / 100" by (simp add: e)
      with no show False by blast
    qed
    hence "1 \<le> \<bar>int (c * 10 ^ nat (2 - j)) - int K\<bar>" by linarith
    hence "1 \<le> \<bar>real (c * 10 ^ nat (2 - j)) - real K\<bar>"
      by (metis of_int_1_le_iff of_int_abs of_int_diff of_int_of_nat_eq)
    hence "1 / 100 \<le> \<bar>real (c * 10 ^ nat (2 - j)) - real K\<bar> / 100" by simp
    also have "\<dots> = \<bar>(real (c * 10 ^ nat (2 - j)) - real K) / 100\<bar>" by simp
    also have "(real (c * 10 ^ nat (2 - j)) - real K) / 100 = real c * 10 powi (- j) - real K / 100"
      by (simp add: e diff_divide_distrib)
    finally show "1 / 100 \<le> \<bar>real c * 10 powi (- j) - real K / 100\<bar>" .
  qed
  have "\<not> round_trips (fl_frac K 100) (?A div ?B) j" using lo by (intro fail) simp
  moreover have "\<not> round_trips (fl_frac K 100) (?A div ?B + 1) j" using lo by (intro fail) simp
  ultimately show ?thesis by (rule decimal_at_fail)
qed

lemma search_decimal:
  assumes "0 < K" "K \<le> 10000" "0 < b"
    and vd: "\<bar>real a / real b - real K / 100\<bar> \<le> real K / 100 / 2 ^ 53"
    and "k = nat (2 - (int n0 - 1 - e10))"
    and "- 2 \<le> int n0 - 1 - e10" "int n0 - 1 - e10 \<le> 3" "n0 + k < 17"
  shows "\<exists>D j. shortest_decimal (fl_frac K 100) a b e10 [n0 ..< 17] = (D, j) \<and>
           real D * 10 powi (- j) = real K / 100"
  using assms(5-8)
proof (induction k arbitrary: n0)
  case 0
  define j where "j = int n0 - 1 - e10"
  have j: "2 \<le> j" "j \<le> 3" using 0 by (simp_all add: j_def)
  have n: "n0 < 17" using 0 by simp
  have "real (K * 10 ^ nat (j - 2)) * 10 powi (- j) = real K * (10 powi (j - 2) * 10 powi (- j))"
    using j by (simp add: power_int_def)
  also have "10 powi (j - 2) * 10 powi (- j) = (10::real) powi (- 2)"
    using power_int_add[of "10::real" "j - 2" "- j"] by simp
  finally have D: "real (K * 10 ^ nat (j - 2)) * 10 powi (- j) = real K / 100"
    by (simp add: power_int_minus)
  have mj: "e10 + 1 - int n0 = - j" by (simp add: j_def)
  from level_pass[OF assms(1-3) vd D j(2)]
  have "shortest_decimal (fl_frac K 100) a b e10 [n0 ..< 17] = (K * 10 ^ nat (j - 2), j)"
    by (simp add: upt_conv_Cons[OF n] j_def[symmetric] mj)
  with D show ?case by blast
next
  case (Suc k)
  define j where "j = int n0 - 1 - e10"
  have j: "- 2 \<le> j" "j \<le> 1" using Suc.prems by (simp_all add: j_def)
  have n: "n0 < 17" using Suc.prems by simp
  have mj: "e10 + 1 - int n0 = - j" by (simp add: j_def)
  show ?case
  proof (cases "\<exists>D. real D * 10 powi (- j) = real K / 100")
    case True
    then obtain D where D: "real D * 10 powi (- j) = real K / 100" ..
    have "j \<le> 3" using j by simp
    from level_pass[OF assms(1-3) vd D this]
    have "shortest_decimal (fl_frac K 100) a b e10 [n0 ..< 17] = (D, j)"
      by (simp add: upt_conv_Cons[OF n] j_def[symmetric] mj)
    with D show ?thesis by blast
  next
    case False
    hence "\<forall>D. real D * 10 powi (- j) \<noteq> real K / 100" by blast
    from level_fail[OF assms(1-3) vd this j(1)]
    have "shortest_decimal (fl_frac K 100) a b e10 [n0 ..< 17]
        = shortest_decimal (fl_frac K 100) a b e10 [Suc n0 ..< 17]"
      by (simp add: upt_conv_Cons[OF n] j_def[symmetric] mj)
    moreover have "\<exists>D j. shortest_decimal (fl_frac K 100) a b e10 [Suc n0 ..< 17] = (D, j) \<and>
           real D * 10 powi (- j) = real K / 100"
      by (rule Suc.IH) (use Suc.prems j in \<open>simp_all add: j_def\<close>)
    ultimately show ?thesis by simp
  qed
qed

lemma strip_zeros_scale: "0 < c \<Longrightarrow> strip_zeros (c * 10 ^ z) (k + int z) = strip_zeros c k"
proof (induction z)
  case 0
  show ?case by simp
next
  case (Suc z)
  have "strip_zeros (c * 10 ^ Suc z) (k + int (Suc z)) = strip_zeros (c * 10 ^ z) (k + int z)"
    using Suc.prems by (subst strip_zeros.simps) (simp add: add.commute add.left_commute)
  thus ?case using Suc by simp
qed

lemma strip_zeros_value:
  assumes "0 < K" and "real D * 10 powi (- j) = real K / 100"
  shows "strip_zeros D j = strip_zeros K 2"
proof -
  have "0 < real D * 10 powi (- j)" using assms by simp
  hence Dpos: "0 < D" by (simp add: zero_less_mult_iff)
  have inv: "(10::real) powi (- j) * 10 powi j = 1" using powi10_inv[of "- j"] by simp
  have DK: "real D * 100 = real K * 10 powi j"
  proof -
    have "real D * 100 = (real D * 10 powi (- j)) * 100 * (10 powi (- j) * 10 powi j) / 10 powi (- j)"
      by (simp add: inv)
    have "real D = real D * (10 powi (- j) * 10 powi j)" by (simp add: inv)
    also have "\<dots> = (real D * 10 powi (- j)) * 10 powi j" by (simp only: mult.assoc)
    also have "\<dots> = real K / 100 * 10 powi j" by (simp only: assms(2))
    finally show ?thesis by simp
  qed
  show ?thesis
  proof (cases "2 \<le> j")
    case True
    have "(10::real) powi j = 100 * 10 ^ nat (j - 2)"
    proof -
      have "(10::real) powi j = 10 powi 2 * 10 powi (j - 2)"
        using power_int_add[of "10::real" 2 "j - 2"] by simp
      thus ?thesis using True by (simp add: power_int_def)
    qed
    hence "real D = real (K * 10 ^ nat (j - 2))" using DK by simp
    hence "D = K * 10 ^ nat (j - 2)" by (simp only: of_nat_eq_iff)
    moreover have "strip_zeros (K * 10 ^ nat (j - 2)) (2 + int (nat (j - 2))) = strip_zeros K 2"
      using assms(1) by (rule strip_zeros_scale)
    ultimately show ?thesis using True by simp
  next
    case False
    hence j: "j < 2" by simp
    have "(10::real) powi j * 10 ^ nat (2 - j) = 100"
    proof -
      have "(10::real) powi j * 10 powi (2 - j) = 10 powi 2"
        using power_int_add[of "10::real" j "2 - j"] by simp
      thus ?thesis using j by (simp add: power_int_def)
    qed
    hence "real K * 100 = real D * 100 * 10 ^ nat (2 - j)"
      using DK by (simp add: mult.assoc)
    hence "real K = real (D * 10 ^ nat (2 - j))" by simp
    hence "K = D * 10 ^ nat (2 - j)" by (simp only: of_nat_eq_iff)
    moreover have "strip_zeros (D * 10 ^ nat (2 - j)) (j + int (nat (2 - j))) = strip_zeros D j"
      using Dpos by (rule strip_zeros_scale)
    ultimately show ?thesis using j by simp
  qed
qed

lemma float_str_hundredths:
  assumes "0 < K" "K \<le> 10000"
  shows "float_str (fl_frac K 100) = repr_decimal (strip_zeros K 2)"
proof -
  obtain m e where x: "fl_frac K 100 = Finite m e" and m: "0 < m"
    and xe: "\<bar>float_value (fl_frac K 100) - real K / real 100\<bar> \<le> real K / real 100 / 2 ^ 53"
    using fl_frac_value[of K 100] assms(1) by (metis zero_less_numeral)
  define a where "a = m * 2 ^ nat e"
  define b where "b = (2::nat) ^ nat (- e)"
  have b: "0 < b" by (simp add: b_def)
  have v: "real a / real b = float_value (fl_frac K 100)"
    unfolding x a_def b_def using scaled_ratio[of m e 1] by simp
  have vd: "\<bar>real a / real b - real K / 100\<bar> \<le> real K / 100 / 2 ^ 53"
    using xe by (simp add: v)
  have d: "1 / 100 \<le> real K / 100" "real K / 100 \<le> 100" using assms by simp_all
  define E where "E = real K / 100 / 2 ^ 53"
  have "E \<le> 100 / 2 ^ 53" unfolding E_def using d(2) by (intro divide_right_mono) simp_all
  hence E1: "E \<le> 1" by simp
  have E2: "E \<le> real K / 100 / 2" unfolding E_def by (intro divide_left_mono) simp_all
  have vE: "\<bar>real a / real b - real K / 100\<bar> \<le> E" using vd by (simp only: E_def)
  have up: "real a / real b < 1000" using vE E1 d(2) by linarith
  have lo: "1 / 1000 \<le> real a / real b" using vE E2 d(1) by linarith
  have "real a < real (1000 * b)" using up b by (simp add: field_simps)
  hence a1: "a < 1000 * b" by (simp only: of_nat_less_iff)
  have "real b \<le> real (1000 * a)" using lo b by (simp add: field_simps)
  hence a2: "b \<le> 1000 * a" by (simp only: of_nat_le_iff)
  define e10 where "e10 = dec_exp a b"
  note r = dec_exp_range[OF b a1 a2, folded e10_def]
  have "1 + nat (2 - (int 1 - 1 - e10)) < 17" "- 2 \<le> int 1 - 1 - e10" "int 1 - 1 - e10 \<le> 3"
    using r by simp_all
  from search_decimal[OF assms b vd refl this(2,3,1)]
  obtain D j where s: "shortest_decimal (fl_frac K 100) a b e10 [1 ..< 17] = (D, j)"
    and D: "real D * 10 powi (- j) = real K / 100"
    by blast
  have "float_str (fl_frac K 100) = repr_decimal (strip_zeros D j)"
    unfolding x using m s[unfolded x] by (simp add: a_def b_def e10_def)
  thus ?thesis by (simp only: strip_zeros_value[OF assms(1) D])
qed

lemma digits_small: "n < 10 \<Longrightarrow> digits n = [n]"
  by (subst digits.simps) simp

lemma digits_step: "10 \<le> n \<Longrightarrow> digits n = digits (n div 10) @ [n mod 10]"
  by (subst digits.simps) simp

lemma digits_times10: "0 < n \<Longrightarrow> digits (n * 10) = digits n @ [0]"
  by (subst digits.simps) simp

lemma digits_scale: "0 < c \<Longrightarrow> digits (c * 10 ^ z) = digits c @ replicate z 0"
proof (induction z)
  case 0
  show ?case by simp
next
  case (Suc z)
  have "c * 10 ^ Suc z = c * 10 ^ z * 10" by simp
  hence "digits (c * 10 ^ Suc z) = digits (c * 10 ^ z * 10)" by (rule arg_cong)
  also have "\<dots> = digits (c * 10 ^ z) @ [0]" using Suc.prems by (intro digits_times10) simp
  finally show ?case using Suc by (simp add: replicate_append_same)
qed

lemma zeros_replicate: "zeros n = replicate n 48"
proof (induction n rule: zeros.induct)
  case (1 n)
  show ?case
  proof (cases n)
    case 0
    thus ?thesis by (simp add: zeros.simps)
  next
    case (Suc k)
    with "1.IH" show ?thesis by (subst zeros.simps) simp
  qed
qed

lemma strip_zeros_done: "c mod 10 \<noteq> 0 \<Longrightarrow> strip_zeros c k = (c, k)"
  by (subst strip_zeros.simps) simp

lemma strip_zeros_step: "0 < c \<Longrightarrow> c mod 10 = 0 \<Longrightarrow> strip_zeros c k = strip_zeros (c div 10) (k - 1)"
  by (subst strip_zeros.simps) simp

lemma strip_zeros_shape:
  "0 < q \<Longrightarrow> \<exists>c z. strip_zeros q k = (c, k - int z) \<and> q = c * 10 ^ z \<and> 0 < c"
proof (induction q k rule: strip_zeros.induct)
  case (1 c k)
  show ?case
  proof (cases "c mod 10 = 0")
    case False
    hence "strip_zeros c k = (c, k - int 0)" by (simp add: strip_zeros_done)
    thus ?thesis using "1.prems" by (intro exI[of _ c] exI[of _ 0]) simp
  next
    case True
    hence c: "c = c div 10 * 10" by presburger
    hence pos: "0 < c div 10" using "1.prems" by simp
    from "1.IH"[OF _ pos] True "1.prems"
    obtain c' z where s: "strip_zeros (c div 10) (k - 1) = (c', k - 1 - int z)"
      and q: "c div 10 = c' * 10 ^ z" and c': "0 < c'" by auto
    have "strip_zeros c k = (c', k - int (Suc z))"
      using strip_zeros_step[OF "1.prems" True] s by simp
    moreover have "c = c' * 10 ^ Suc z" using c q by simp
    ultimately show ?thesis using c' by blast
  qed
qed

lemma repr_digits_whole:
  assumes "0 < length ds" "length ds + z \<le> 16"
  shows "repr_digits ds (int (length ds + z)) = ds @ zeros z @ [46, 48]"
proof -
  have c1: "\<not> (int (length ds + z) \<le> - 4 \<or> 16 < int (length ds + z))"
    using assms by linarith
  have c2: "\<not> int (length ds + z) \<le> 0" using assms by linarith
  have c3: "int (length ds) \<le> int (length ds + z)" by simp
  have c4: "nat (int (length ds + z)) - length ds = z" by simp
  show ?thesis by (simp only: repr_digits_def c1 c2 c3 c4 if_True if_False)
qed

lemma repr_digits_point:
  assumes "0 < n" "n \<le> 16" "length xs = n" "ys \<noteq> []"
  shows "repr_digits (xs @ ys) (int n) = xs @ [46] @ ys"
proof -
  have c1: "\<not> (int n \<le> - 4 \<or> 16 < int n)" using assms(1,2) by linarith
  have c2: "\<not> int n \<le> 0" using assms(1) by linarith
  have c3: "\<not> int (length (xs @ ys)) \<le> int n" using assms by (cases ys) simp_all
  have c4: "take (nat (int n)) (xs @ ys) = xs" "drop (nat (int n)) (xs @ ys) = ys"
    using assms(3) by simp_all
  show ?thesis by (simp only: repr_digits_def c1 c2 c3 c4 if_True if_False)
qed

lemma repr_digits_zero: "repr_digits ds 0 = [48, 46] @ ds"
  by (simp add: repr_digits_def zeros.simps)

lemma repr_digits_minus_one: "repr_digits ds (- 1) = [48, 46, 48] @ ds"
  by (simp add: repr_digits_def zeros.simps)

lemma render_whole:
  assumes "0 < q" "q < 1000"
  shows "repr_decimal (strip_zeros q 0) = str_of_nat q @ [46, 48]"
proof -
  obtain c z where s: "strip_zeros q 0 = (c, 0 - int z)" and q: "q = c * 10 ^ z" and c: "0 < c"
    using strip_zeros_shape[OF assms(1), of 0] by blast
  have d: "digits q = digits c @ replicate z 0" unfolding q using c by (rule digits_scale)
  have "length (digits q) \<le> 3" using assms(2) by (rule length_digits_le)
  hence len: "length (str_of_nat c) + z \<le> 16" by (simp add: d str_of_nat_def)
  have pos: "0 < length (str_of_nat c)" using length_digits_pos[of c] by (simp add: str_of_nat_def)
  have "int (length (digits c)) - (0 - int z) = int (length (str_of_nat c) + z)"
    by (simp add: str_of_nat_def)
  hence "repr_decimal (strip_zeros q 0)
      = repr_digits (str_of_nat c) (int (length (str_of_nat c) + z))"
    by (simp only: s repr_decimal_def fst_conv snd_conv)
  also have "\<dots> = str_of_nat c @ zeros z @ [46, 48]"
    using pos len by (rule repr_digits_whole)
  also have "\<dots> = str_of_nat q @ [46, 48]"
    by (simp add: str_of_nat_def d zeros_replicate)
  finally show ?thesis .
qed

lemma render_point:
  assumes "10 ^ k \<le> M" "M < 10000" "0 < k"
    and split: "digits M = digits (M div 10 ^ k) @ rest"  and rest: "length rest = k"
  shows "repr_decimal (M, int k) = str_of_nat (M div 10 ^ k) @ [46] @ map (\<lambda>d. 48 + d) rest"
proof -
  define xs where "xs = str_of_nat (M div 10 ^ k)"
  define n where "n = length xs"
  have "M div 10 ^ k < 1000"
  proof -
    have "(10::nat) ^ 1 \<le> 10 ^ k" using assms(3) by (intro power_increasing) simp_all
    hence "M div 10 ^ k \<le> M div 10 ^ 1" by (intro div_le_mono2) simp_all
    also have "\<dots> < 1000" using assms(2) by simp
    finally show ?thesis .
  qed
  hence "length (digits (M div 10 ^ k)) \<le> 3" by (rule length_digits_le)
  hence n: "0 < n" "n \<le> 16"
    using length_digits_pos[of "M div 10 ^ k"] by (simp_all add: n_def xs_def str_of_nat_def)
  have s: "str_of_nat M = xs @ map (\<lambda>d. 48 + d) rest"
    by (simp add: str_of_nat_def split xs_def)
  have "int (length (digits M)) - int k = int n"
    by (simp add: split rest n_def xs_def str_of_nat_def)
  hence "repr_decimal (M, int k) = repr_digits (xs @ map (\<lambda>d. 48 + d) rest) (int n)"
    by (simp only: repr_decimal_def fst_conv snd_conv s)
  also have "\<dots> = xs @ [46] @ map (\<lambda>d. 48 + d) rest"
    using n by (rule repr_digits_point) (use rest assms(3) in \<open>auto simp: n_def\<close>)
  finally show ?thesis by (simp only: xs_def)
qed

lemma render_hundredths:
  assumes "0 < K" "K \<le> 10000"
  shows "repr_decimal (strip_zeros K 2) = two_decimals K"
proof -
  consider (a) "K mod 10 \<noteq> 0" | (b) "K mod 10 = 0" "K mod 100 \<noteq> 0" | (c) "K mod 100 = 0"
    by blast
  thus ?thesis
  proof cases
    case a
    hence s: "strip_zeros K 2 = (K, 2)" by (rule strip_zeros_done)
    have K: "K < 10000" using a assms(2) by (cases "K = 10000") simp_all
    consider "K < 10" | "10 \<le> K" "K < 100" | "100 \<le> K" by linarith
    thus ?thesis
    proof cases
      case 1
      thus ?thesis using a
        by (simp add: s repr_decimal_def two_decimals_def str_of_nat_def digits_small
              repr_digits_minus_one)
    next
      case 2
      hence d: "digits K = [K div 10, K mod 10]"
        using digits_step[of K] by (simp add: digits_small)
      show ?thesis using a 2
        by (simp add: s repr_decimal_def two_decimals_def str_of_nat_def d digits_small
              repr_digits_zero)
    next
      case 3
      hence "10 \<le> K" "10 \<le> K div 10" by simp_all
      moreover have "K div 10 div 10 = K div 10 ^ 2" by (simp add: div_mult2_eq[symmetric])
      ultimately have d: "digits K = digits (K div 10 ^ 2) @ [K div 10 mod 10, K mod 10]"
        using digits_step[of K] digits_step[of "K div 10"] by simp
      have "repr_decimal (K, int 2)
          = str_of_nat (K div 10 ^ 2) @ [46] @ map (\<lambda>d. 48 + d) [K div 10 mod 10, K mod 10]"
        by (rule render_point[OF _ K _ d]) (use 3 in simp_all)
      thus ?thesis using a by (simp add: s two_decimals_def)
    qed
  next
    case b
    define M where "M = K div 10"
    have KM: "K = M * 10" using b(1) unfolding M_def by presburger
    have "M mod 10 \<noteq> 0" using b(2) unfolding KM by presburger
    moreover have "0 < M" "M < 10000" using assms by (simp_all add: KM)
    ultimately have M: "M mod 10 \<noteq> 0" "0 < M" "M < 10000" by blast+
    have s: "strip_zeros K 2 = (M, 1)"
      using strip_zeros_step[OF assms(1) b(1), of 2] strip_zeros_done[OF M(1), of 1]
      by (simp add: M_def)
    consider "M < 10" | "10 \<le> M" by linarith
    thus ?thesis
    proof cases
      case 1
      thus ?thesis unfolding s
        by (simp add: repr_decimal_def two_decimals_def str_of_nat_def digits_small
              repr_digits_zero KM)
    next
      case 2
      hence d: "digits M = digits (M div 10 ^ 1) @ [M mod 10]" using digits_step[of M] by simp
      have "repr_decimal (M, int 1) = str_of_nat (M div 10 ^ 1) @ [46] @ map (\<lambda>d. 48 + d) [M mod 10]"
        by (rule render_point[OF _ M(3) _ d]) (use 2 in simp_all)
      thus ?thesis unfolding s by (simp add: two_decimals_def KM)
    qed
  next
    case c
    define q where "q = K div 100"
    have Kq: "K = q * 100" using c unfolding q_def by presburger
    have q: "0 < q" "q < 1000" using assms by (simp_all add: Kq)
    have "strip_zeros K 2 = strip_zeros (K div 10) 1"
      using strip_zeros_step[OF assms(1), of 2] by (simp add: Kq)
    also have "\<dots> = strip_zeros q 0"
      using strip_zeros_step[of "K div 10" 1] q by (simp add: Kq)
    finally have "repr_decimal (strip_zeros K 2) = str_of_nat q @ [46, 48]"
      using render_whole[OF q] by simp
    moreover have "two_decimals K = str_of_nat q @ [46, 48]"
      by (simp add: two_decimals_def Kq)
    ultimately show ?thesis by simp
  qed
qed

subsection \<open>From the counts to the text of the cell\<close>

lemma float_100: "float_of_nat 100 = Finite 7036874417766400 (- 46)"
  by (simp add: float_of_nat_def fl_frac_def fl_at_def fl_shift_def fl_norm_def
        round_half_even_def half_even_pick_def bit_length.simps)

lemma value_ratio: "real (m * 2 ^ nat e) / real (2 ^ nat (- e)) = real m * 2 powi e"
  using scaled_ratio[of m e 1] by simp

lemma f_div_finite:
  assumes "0 < m" "0 < m'"
  obtains N D where "f_div (Finite m e) (Finite m' e') = fl_frac N D" "0 < N" "0 < D"
    "real N / real D = (real m * 2 powi e) / (real m' * 2 powi e')"
proof -
  let ?N = "m * 2 ^ nat e * 2 ^ nat (- e')" and ?D = "2 ^ nat (- e) * (m' * 2 ^ nat e')"
  have "real ?N / real ?D
      = (real (m * 2 ^ nat e) / real (2 ^ nat (- e))) / (real (m' * 2 ^ nat e') / real (2 ^ nat (- e')))"
    by (simp add: field_simps)
  hence "real ?N / real ?D = (real m * 2 powi e) / (real m' * 2 powi e')"
    by (simp only: value_ratio)
  moreover have "f_div (Finite m e) (Finite m' e') = fl_frac ?N ?D" using assms(2) by simp
  moreover have "0 < ?N" "0 < ?D" using assms by simp_all
  ultimately show ?thesis by (rule that[of ?N ?D, rotated -1]) 
qed

lemma f_mul_finite:
  assumes "0 < m" "0 < m'"
  obtains N D where "f_mul (Finite m e) (Finite m' e') = fl_frac N D" "0 < N" "0 < D"
    "real N / real D = (real m * 2 powi e) * (real m' * 2 powi e')"
proof -
  let ?N = "m * 2 ^ nat e * (m' * 2 ^ nat e')" and ?D = "(2::nat) ^ nat (- e) * 2 ^ nat (- e')"
  have "real ?N / real ?D
      = (real (m * 2 ^ nat e) / real (2 ^ nat (- e))) * (real (m' * 2 ^ nat e') / real (2 ^ nat (- e')))"
    by (simp add: field_simps)
  hence "real ?N / real ?D = (real m * 2 powi e) * (real m' * 2 powi e')"
    by (simp only: value_ratio)
  moreover have "f_mul (Finite m e) (Finite m' e') = fl_frac ?N ?D" by simp
  moreover have "0 < ?N" "0 < ?D" using assms by simp_all
  ultimately show ?thesis by (rule that[of ?N ?D, rotated -1])
qed

lemma rel_step:
  fixes X q v a :: real
  assumes "0 < X" "0 \<le> a" "a \<le> 100"
    and "X * (1 - a / 2 ^ 53) \<le> q" "q \<le> X * (1 + a / 2 ^ 53)" "\<bar>v - q\<bar> \<le> q / 2 ^ 53"
  shows "X * (1 - (a + 2) / 2 ^ 53) \<le> v" and "v \<le> X * (1 + (a + 2) / 2 ^ 53)"
proof -
  define eps :: real where "eps = 1 / 2 ^ 53"
  have eps: "0 < eps" "eps \<le> 1 / 100" by (simp_all add: eps_def)
  have ae: "a * eps \<le> 1" 
  proof -
    have "a * eps \<le> 100 * (1 / 100)" using assms(2,3) eps by (intro mult_mono) simp_all
    thus ?thesis by simp
  qed
  have q1: "X * (1 - a * eps) \<le> q" and q2: "q \<le> X * (1 + a * eps)"
    using assms(4,5) by (simp_all add: eps_def)
  have "\<bar>v - q\<bar> \<le> q * eps" using assms(6) by (simp add: eps_def)
  hence vq: "q - q * eps \<le> v" "v \<le> q + q * eps" by linarith+
  have "0 \<le> X * (1 - a * eps)" using assms(1) ae by simp
  hence qpos: "0 \<le> q" using q1 by linarith
  have "v \<le> q * (1 + eps)" using vq(2) by (simp add: algebra_simps)
  also have "\<dots> \<le> X * (1 + a * eps) * (1 + eps)" using q2 eps by (intro mult_right_mono) simp_all
  also have "\<dots> = X * (1 + (a + 1) * eps + (a * eps) * eps)" by (simp add: algebra_simps)
  also have "\<dots> \<le> X * (1 + (a + 1) * eps + 1 * eps)"
    using ae eps assms(1) by (intro mult_left_mono add_left_mono mult_right_mono) simp_all
  also have "\<dots> = X * (1 + (a + 2) * eps)" by (simp add: algebra_simps)
  finally show "v \<le> X * (1 + (a + 2) / 2 ^ 53)" by (simp add: eps_def)
  have "X * (1 - (a + 2) * eps) \<le> X * (1 - (a + 1) * eps + (a * eps) * eps)"
  proof -
    have "0 \<le> (a * eps) * eps" using assms(2) eps by simp
    hence "1 - (a + 2) * eps \<le> 1 - (a + 1) * eps + (a * eps) * eps"
      using eps by (simp add: algebra_simps)
    thus ?thesis using assms(1) by (intro mult_left_mono) simp_all
  qed
  also have "\<dots> = X * (1 - a * eps) * (1 - eps)" by (simp add: algebra_simps)
  also have "\<dots> \<le> q * (1 - eps)" using q1 eps by (intro mult_right_mono) simp_all
  also have "\<dots> \<le> v" using vq(1) by (simp add: algebra_simps)
  finally show "X * (1 - (a + 2) / 2 ^ 53) \<le> v" by (simp add: eps_def)
qed

lemma rel_div:
  fixes f t vf vt :: real
  assumes "0 < f" "0 < t" "\<bar>vf - f\<bar> \<le> f / 2 ^ 53" "\<bar>vt - t\<bar> \<le> t / 2 ^ 53"
  shows "f / t * (1 - 3 / 2 ^ 53) \<le> vf / vt" and "vf / vt \<le> f / t * (1 + 3 / 2 ^ 53)"
proof -
  define eps :: real where "eps = 1 / 2 ^ 53"
  have "\<bar>vf - f\<bar> \<le> f * eps" using assms(3) by (simp add: eps_def)
  hence "f - f * eps \<le> vf" "vf \<le> f + f * eps" by linarith+
  hence f: "f * (1 - eps) \<le> vf" "vf \<le> f * (1 + eps)" by (simp_all add: algebra_simps)
  have "\<bar>vt - t\<bar> \<le> t * eps" using assms(4) by (simp add: eps_def)
  hence "t - t * eps \<le> vt" "vt \<le> t + t * eps" by linarith+
  hence t: "t * (1 - eps) \<le> vt" "vt \<le> t * (1 + eps)" by (simp_all add: algebra_simps)
  have e1: "0 < 1 - eps" "0 < 1 + eps" by (simp_all add: eps_def)
  have tl: "0 < t * (1 - eps)" using assms(2) e1 by simp
  hence vtpos: "0 < vt" using t(1) by linarith
  have vfpos: "0 < vf" using f(1) assms(1) e1 by (meson less_le_trans mult_pos_pos)
  have num1: "(1 + eps) / (1 - eps) \<le> 1 + 3 * eps" by (simp add: eps_def)
  have num2: "1 - 3 * eps \<le> (1 - eps) / (1 + eps)" by (simp add: eps_def)
  have "vf / vt \<le> f * (1 + eps) / (t * (1 - eps))"
    using f(2) t(1) tl vfpos by (intro frac_le) simp_all
  also have "\<dots> = f / t * ((1 + eps) / (1 - eps))" by simp
  also have "\<dots> \<le> f / t * (1 + 3 * eps)"
    using num1 assms(1,2) by (intro mult_left_mono) simp_all
  finally show "vf / vt \<le> f / t * (1 + 3 / 2 ^ 53)" by (simp add: eps_def)
  have "f / t * (1 - 3 * eps) \<le> f / t * ((1 - eps) / (1 + eps))"
    using num2 assms(1,2) by (intro mult_left_mono) simp_all
  also have "\<dots> = f * (1 - eps) / (t * (1 + eps))" by simp
  also have "\<dots> \<le> vf / vt"
    using f(1) t(2) vtpos vfpos by (intro frac_le) simp_all
  finally show "f / t * (1 - 3 / 2 ^ 53) \<le> vf / vt" by (simp add: eps_def)
qed

lemma round_step:
  assumes "0 < N" "0 < D" "0 < X" "0 \<le> a" "a \<le> 100"
    and "X * (1 - a / 2 ^ 53) \<le> real N / real D" "real N / real D \<le> X * (1 + a / 2 ^ 53)"
  shows "\<exists>m e. fl_frac N D = Finite m e \<and> 0 < m \<and>
           X * (1 - (a + 2) / 2 ^ 53) \<le> real m * 2 powi e \<and>
           real m * 2 powi e \<le> X * (1 + (a + 2) / 2 ^ 53)"
proof -
  obtain m e where x: "fl_frac N D = Finite m e" and m: "0 < m"
    and err: "\<bar>float_value (fl_frac N D) - real N / real D\<bar> \<le> real N / real D / 2 ^ 53"
    using fl_frac_value[OF assms(1,2)] by metis
  have err': "\<bar>real m * 2 powi e - real N / real D\<bar> \<le> real N / real D / 2 ^ 53"
    using err by (simp add: x)
  from rel_step[OF assms(3-7) err'] x m show ?thesis by blast
qed

lemma fl_frac_exact_nat:
  assumes "0 < K" "K < 2 ^ 52"
  shows "float_value (fl_frac K 1) = real K"
proof -
  define s where "s = fl_shift K 1 (53 + int (bit_length 1) - int (bit_length K))"
  have r: "2 ^ 52 \<le> real K / real 1 * 2 powi s" "real K / real 1 * 2 powi s < 2 ^ 53"
    using shift_range[OF assms(1), of 1] by (simp_all add: s_def)
  have s: "0 \<le> s"
  proof (rule ccontr)
    assume "\<not> 0 \<le> s"
    hence "s \<le> 0" by simp
    hence "(2::real) powi s \<le> 2 powi 0" by (rule powi_mono)
    hence "real K * 2 powi s \<le> real K * 1" by (intro mult_left_mono) simp_all
    moreover have "real K < 2 ^ 52" using assms(2) by (metis of_nat_less_iff of_nat_numeral of_nat_power)
    ultimately show False using r(1) by simp
  qed
  have "real K / real 1 * 2 powi s = of_int (int (K * 2 ^ nat s))"
    using s by (simp add: power_int_def)
  from fl_frac_exact[OF assms(1) _ r this] show ?thesis by simp
qed

lemma hundred_value: "real 7036874417766400 * 2 powi (- 46) = 100"
  by (simp add: power_int_minus)

lemma percent_pipeline:
  assumes "0 < f" "f \<le> t"
  shows "percent_of_text f t = two_decimals (hundredths f t) @ [32, 37] \<and>
         \<bar>real (hundredths f t) - 10000 * real f / real t\<bar> \<le> 1 / 2 + 1 / 10 ^ 9"
proof -
  have t: "0 < t" using assms by simp
  define X where "X = real f / real t"
  have X: "0 < X" "X \<le> 1" using assms t by (simp_all add: X_def)
  define c where "c = (7036874417766400 :: nat)"
  have c: "0 < c" "real c * 2 powi (- 46) = 100"
    using hundred_value by (simp_all add: c_def)
  have f100: "float_of_nat 100 = Finite c (- 46)" "float_of_nat (10 ^ 2) = Finite c (- 46)"
    using float_100 by (simp_all add: c_def)
  obtain mf ef where xf: "float_of_nat f = Finite mf ef" and mf: "0 < mf"
    and ef: "\<bar>real mf * 2 powi ef - real f\<bar> \<le> real f / 2 ^ 53"
    using fl_frac_value[OF assms(1), of 1] by (metis float_of_nat_def float_value.simps(1)
        div_by_1 of_nat_1 zero_less_one)
  obtain mt et where xt: "float_of_nat t = Finite mt et" and mt: "0 < mt"
    and et: "\<bar>real mt * 2 powi et - real t\<bar> \<le> real t / 2 ^ 53"
    using fl_frac_value[OF t, of 1] by (metis float_of_nat_def float_value.simps(1)
        div_by_1 of_nat_1 zero_less_one)
  \<comment> \<open>the quotient\<close>
  obtain N1 D1 where d1: "f_div (Finite mf ef) (Finite mt et) = fl_frac N1 D1"
    and p1: "0 < N1" "0 < D1"
    and r1: "real N1 / real D1 = (real mf * 2 powi ef) / (real mt * 2 powi et)"
    using f_div_finite[OF mf mt] by metis
  have fpos: "0 < real f" and tpos: "0 < real t" using assms t by simp_all
  have b1: "X * (1 - 3 / 2 ^ 53) \<le> real N1 / real D1" "real N1 / real D1 \<le> X * (1 + 3 / 2 ^ 53)"
    unfolding r1 X_def using rel_div[OF fpos tpos ef et] by simp_all
  have n3: "(0::real) \<le> 3" "(3::real) \<le> 100" by simp_all
  obtain m1 e1 where x1: "fl_frac N1 D1 = Finite m1 e1" and m1: "0 < m1"
    and v1: "X * (1 - (3 + 2) / 2 ^ 53) \<le> real m1 * 2 powi e1"
            "real m1 * 2 powi e1 \<le> X * (1 + (3 + 2) / 2 ^ 53)"
    using round_step[OF p1 X(1) n3 b1] by blast
  \<comment> \<open>times one hundred: the percentage\<close>
  obtain N2 D2 where d2: "f_mul (Finite m1 e1) (Finite c (- 46)) = fl_frac N2 D2"
    and p2: "0 < N2" "0 < D2"
    and r2: "real N2 / real D2 = (real m1 * 2 powi e1) * (real c * 2 powi (- 46))"
    using f_mul_finite[OF m1 c(1)] by metis
  have X2: "0 < 100 * X" using X by simp
  have b2: "100 * X * (1 - 5 / 2 ^ 53) \<le> real N2 / real D2"
           "real N2 / real D2 \<le> 100 * X * (1 + 5 / 2 ^ 53)"
    unfolding r2 c(2) using v1 by simp_all
  have n5: "(0::real) \<le> 5" "(5::real) \<le> 100" by simp_all
  obtain m2 e2 where x2: "fl_frac N2 D2 = Finite m2 e2" and m2: "0 < m2"
    and v2: "100 * X * (1 - (5 + 2) / 2 ^ 53) \<le> real m2 * 2 powi e2"
            "real m2 * 2 powi e2 \<le> 100 * X * (1 + (5 + 2) / 2 ^ 53)"
    using round_step[OF p2 X2 n5 b2] by blast
  \<comment> \<open>times one hundred again, inside \<open>round\<close>\<close>
  obtain N3 D3 where d3: "f_mul (Finite m2 e2) (Finite c (- 46)) = fl_frac N3 D3"
    and p3: "0 < N3" "0 < D3"
    and r3: "real N3 / real D3 = (real m2 * 2 powi e2) * (real c * 2 powi (- 46))"
    using f_mul_finite[OF m2 c(1)] by metis
  have X3: "0 < 10000 * X" using X by simp
  have b3: "10000 * X * (1 - 7 / 2 ^ 53) \<le> real N3 / real D3"
           "real N3 / real D3 \<le> 10000 * X * (1 + 7 / 2 ^ 53)"
    unfolding r3 c(2) using v2 by simp_all
  have n7: "(0::real) \<le> 7" "(7::real) \<le> 100" by simp_all
  obtain m3 e3 where x3: "fl_frac N3 D3 = Finite m3 e3" and m3: "0 < m3"
    and v3: "10000 * X * (1 - (7 + 2) / 2 ^ 53) \<le> real m3 * 2 powi e3"
            "real m3 * 2 powi e3 \<le> 10000 * X * (1 + (7 + 2) / 2 ^ 53)"
    using round_step[OF p3 X3 n7 b3] by blast
  define v where "v = real m3 * 2 powi e3"
  define K where "K = round_half_even (m3 * 2 ^ nat e3) (2 ^ nat (- e3))"
  have p: "f_mul (f_mul (f_div (float_of_nat f) (float_of_nat t)) (float_of_nat 100))
             (float_of_nat (10 ^ 2)) = Finite m3 e3"
    by (simp only: xf xt d1 x1 f100 d2 x2 d3 x3)
  have hK: "hundredths f t = K" by (simp only: hundredths_def p rint_nat.simps K_def)
  have Kv: "int K = rhe v"
    unfolding K_def v_def using round_half_even_rat[of "2 ^ nat (- e3)" "m3 * 2 ^ nat e3"]
    by (simp only: value_ratio) simp
  have near: "\<bar>real K - v\<bar> \<le> 1 / 2"
    using rhe_near[of v] by (simp add: Kv[symmetric])
  have "10000 * X * (1 - (7 + 2) / 2 ^ 53) = 10000 * X - 10000 * X * (9 / 2 ^ 53)"
       "10000 * X * (1 + (7 + 2) / 2 ^ 53) = 10000 * X + 10000 * X * (9 / 2 ^ 53)"
    by (simp_all add: algebra_simps)
  hence "10000 * X - 10000 * X * (9 / 2 ^ 53) \<le> v" "v \<le> 10000 * X + 10000 * X * (9 / 2 ^ 53)"
    using v3 by (simp_all only: v_def)
  hence vX: "\<bar>v - 10000 * X\<bar> \<le> 10000 * X * (9 / 2 ^ 53)" by linarith
  have "10000 * X * (9 / 2 ^ 53) \<le> 10000 * 1 * (9 / 2 ^ 53)"
    using X by (intro mult_right_mono mult_left_mono) simp_all
  also have "\<dots> \<le> 1 / 10 ^ 9" by simp
  finally have small: "\<bar>v - 10000 * X\<bar> \<le> 1 / 10 ^ 9" using vX by linarith
  have "\<bar>real K - 10000 * X\<bar> \<le> 1 / 2 + 1 / 10 ^ 9" using near small by linarith
  hence acc: "\<bar>real K - 10000 * real f / real t\<bar> \<le> 1 / 2 + 1 / 10 ^ 9"
    by (simp only: X_def times_divide_eq_right)
  have "real K \<le> 10000 * X + 1 / 2 + 1 / 10 ^ 9" using near small by linarith
  also have "\<dots> < 10001" using X(2) by simp
  finally have "K < 10001" by (metis of_nat_less_iff of_nat_numeral)
  hence K: "K \<le> 10000" by simp
  \<comment> \<open>the division by one hundred and the conversion to text\<close>
  have rnd: "np_round (f_mul (f_div (float_of_nat f) (float_of_nat t)) (float_of_nat 100)) 2
      = f_div (fl_frac K 1) (Finite c (- 46))"
    unfolding np_round_def f100 p[unfolded f100] by (simp add: K_def)
  have str: "float_str (f_div (fl_frac K 1) (Finite c (- 46))) = two_decimals K"
  proof (cases "K = 0")
    case True
    thus ?thesis using c(1)
      by (simp add: fl_frac_def two_decimals_def str_of_nat_def digits_small)
  next
    case False
    hence Kpos: "0 < K" by simp
    obtain mk ek where xk: "fl_frac K 1 = Finite mk ek" and mk: "0 < mk"
      using fl_frac_value[OF Kpos, of 1] by (metis zero_less_one)
    have "K < 2 ^ 52" using K by simp
    from fl_frac_exact_nat[OF Kpos this] have vk: "real mk * 2 powi ek = real K"
      unfolding xk by simp
    obtain N D where d: "f_div (Finite mk ek) (Finite c (- 46)) = fl_frac N D"
      and pd: "0 < N" "0 < D"
      and rd: "real N / real D = (real mk * 2 powi ek) / (real c * 2 powi (- 46))"
      using f_div_finite[OF mk c(1)] by metis
    have "real N / real D = real K / real 100" unfolding rd vk c(2) by simp
    hence "fl_frac N D = fl_frac K 100" using pd Kpos by (intro fl_frac_ratio) simp_all
    hence "float_str (f_div (fl_frac K 1) (Finite c (- 46))) = float_str (fl_frac K 100)"
      by (simp only: xk d)
    also have "\<dots> = repr_decimal (strip_zeros K 2)" using Kpos K by (rule float_str_hundredths)
    also have "\<dots> = two_decimals K" using Kpos K by (rule render_hundredths)
    finally show ?thesis .
  qed
  have "percent_of_text f t = two_decimals K @ [32, 37]"
    by (simp only: percent_of_text_def rnd str)
  with acc show ?thesis by (simp only: hK) 
qed

section \<open>The \<open>% of Text\<close> column\<close>

lemma rank_from_cells:
  "r \<in> set (rank_from i rs) \<Longrightarrow>
     \<exists>r0\<in>set rs. Frequency r = Frequency r0 \<and> Percent_of_Text r = Percent_of_Text r0"
  by (induction rs arbitrary: i) (auto simp: word_row.extend_def)

lemma table_cells:
  assumes "sort_values_spec srt" and "r \<in> set (fst (get_word_stats srt ws))"
  shows "0 < Frequency r \<and> Frequency r \<le> length ws \<and>
         Percent_of_Text r = percent_of_text (Frequency r) (length ws)"
proof -
  let ?df0 = "map (\<lambda>(w, f). \<lparr>Word = w, Frequency = f,
      Percent_of_Text = percent_of_text f (sum_list (map snd (Counter ws)))\<rparr>) (Counter ws)"
  from assms(2) have "r \<in> set (rank_from 0 (srt ?df0))"
    by (simp add: get_word_stats_def Let_def)
  then obtain r0 where r0: "r0 \<in> set (srt ?df0)"
    and eq: "Frequency r = Frequency r0" "Percent_of_Text r = Percent_of_Text r0"
    using rank_from_cells by blast
  from r0 have "r0 \<in> set ?df0" by (simp only: spec_set[OF assms(1)])
  then obtain w f where wf: "(w, f) \<in> set (Counter ws)"
    and r0': "r0 = \<lparr>Word = w, Frequency = f,
      Percent_of_Text = percent_of_text f (sum_list (map snd (Counter ws)))\<rparr>"
    by auto
  from Counter_positive[OF wf] have pos: "0 < f" by simp
  from Counter_le_total[OF wf] have le: "f \<le> length ws" by simp
  from eq r0' pos le show ?thesis by (simp add: Counter_total)
qed

lemma cat_tokens_table:
  "fst (get_word_stats stable_sort_desc [u ''cat'', u ''sat'', u ''mat'', u ''cat'', u ''ran''])
     = [\<lparr>Word = u ''cat'', Frequency = 2, Percent_of_Text = u ''40.0 %'', Rank = 1\<rparr>,
        \<lparr>Word = u ''sat'', Frequency = 1, Percent_of_Text = u ''20.0 %'', Rank = 2\<rparr>,
        \<lparr>Word = u ''mat'', Frequency = 1, Percent_of_Text = u ''20.0 %'', Rank = 3\<rparr>,
        \<lparr>Word = u ''ran'', Frequency = 1, Percent_of_Text = u ''20.0 %'', Rank = 4\<rparr>]"
proof -
  have counter: "Counter [u ''cat'', u ''sat'', u ''mat'', u ''cat'', u ''ran'']
      = [(u ''cat'', 2), (u ''sat'', 1), (u ''mat'', 1), (u ''ran'', 1)]"
    by (simp add: Counter_def u_def)
  show ?thesis
    by (simp add: get_word_stats_def Let_def counter percent_2_of_5
          percent_1_of_5[unfolded One_nat_def] stable_sort_desc_def
          word_row.extend_def ranked_row.fields_def)
qed

text \<open>
  Claim C10. Every entry of the \<open>% of Text\<close> column that \<open>get_word_stats\<close> makes of a
  token list is the percentage rounded to two decimals, written as a decimal, then a
  space and a percent sign: the cell of a word counted \<open>f\<close> times among \<open>t\<close> tokens is
  \<open>two_decimals k\<close> followed by \<open>'' %''\<close>, where \<open>k = hundredths f t\<close> is the whole number of
  hundredths that \<open>round(2)\<close> reaches. That number lies within a half (and the error of
  three float operations, below \<open>10\<^sup>-\<^sup>9\<close>) of \<open>10000 * f / t\<close>, so it is the percentage
  rounded to the nearest hundredth; \<open>two_decimals\<close> keeps one decimal at least and drops
  the second when it is zero, as the conversion of a float to a string does: a share of
  40 percent is written \<open>40.0 %\<close>, not \<open>40.00 %\<close>. A table with a row has a token, so the
  statement speaks of the non-empty token lists.
\<close>

theorem percent_column_format:
  assumes "sort_values_spec srt" and "r \<in> set (fst (get_word_stats srt words))"
  shows "Percent_of_Text r
           = two_decimals (hundredths (Frequency r) (length words)) @ u '' %'' \<and>
         \<bar>real (hundredths (Frequency r) (length words))
            - 10000 * real (Frequency r) / real (length words)\<bar> \<le> 1 / 2 + 1 / 10 ^ 9"
proof -
  from table_cells[OF assms]
  have pos: "0 < Frequency r" and le: "Frequency r \<le> length words"
    and cell: "Percent_of_Text r = percent_of_text (Frequency r) (length words)"
    by simp_all
  have sfx: "u '' %'' = [32, 37]" by (simp add: u_def)
  from percent_pipeline[OF pos le] cell show ?thesis
    unfolding sfx by simp
qed

theorem percent_column_format_witness:
  "two_decimals (hundredths 2 5) @ u '' %'' = u ''40.0 %'' \<and>
   \<bar>real (hundredths 2 5) - 10000 * real (2 :: nat) / real (5 :: nat)\<bar> \<le> 1 / 2 + 1 / 10 ^ 9"
proof -
  define ws where "ws = [u ''cat'', u ''sat'', u ''mat'', u ''cat'', u ''ran'']"
  define r where
    "r = \<lparr>Word = u ''cat'', Frequency = 2, Percent_of_Text = u ''40.0 %'', Rank = 1\<rparr>"
  have len: "length ws = 5" by (simp add: ws_def)
  have freq: "Frequency r = 2" and cell: "Percent_of_Text r = u ''40.0 %''"
    by (simp_all add: r_def)
  have "r \<in> set (fst (get_word_stats stable_sort_desc ws))"
    unfolding ws_def cat_tokens_table by (simp add: r_def)
  from percent_column_format[OF stable_sort_desc_spec this]
  show ?thesis unfolding len freq cell by simp
qed
end
